theory Spec2Isabelle
  imports Main "HOL-Library.Word"
begin

section \<open>The session engine of node-appletv (src/lib/appletv.ts)\<close>

text \<open>
  The class \<open>AppleTV\<close> is embedded as functions over an explicit state. Everything the class
  calls but does not implement (the \<open>Connection\<close>, the \<open>Verifier\<close>, \<open>uuid\<close>, the helper
  \<open>number.UInt16toBufferBE\<close>) is a parameter, collected in the record \<open>env\<close>: every call to
  the connection or the verifier is appended to a trace, and its outcome is the one the
  environment gives. A promise that rejects is the value \<open>Inl e\<close>, one that resolves is
  \<open>Inr v\<close>; \<open>await\<close> runs the rest of an \<open>async\<close> body only after a resolution. An
  \<open>async\<close> body is run to its end in one step: the theorems about a call speak of what
  that call does, not of what other tasks do between two of its awaits.
  Building a typed protobuf message from the schema files shipped with the library
  (\<open>load\<close>, \<open>lookupType\<close>, \<open>create\<close>) is total in this model. The fields \<open>name\<close>,
  \<open>address\<close>, \<open>port\<close> and \<open>uid\<close>, which no method reads, are left out.
\<close>

subsection \<open>Data\<close>

type_synonym byte = "8 word"
type_synonym buffer = "byte list"

text \<open>\<open>Message.Type\<close>: the members the class names, and the others by number.\<close>

datatype message_type =
    DeviceInfoMessage
  | SetStateMessage
  | PlaybackQueueRequestMessage
  | OtherMessage nat

text \<open>
  Errors: \<open>Error("No artwork available")\<close>, \<open>Error("Timed out waiting for message type " + type)\<close>,
  the \<open>TypeError\<close> of a write through \<open>undefined\<close>, and the errors a collaborator
  rejects with.
\<close>

datatype error =
    NoArtworkAvailable
  | TimedOutWaitingForMessageType message_type
  | TypeError
  | External string

record Credentials =
  c_pairingId :: string
  readKey :: "buffer option"
  writeKey :: "buffer option"

text \<open>The object \<open>verifier.verify()\<close> resolves to.\<close>

record keys =
  k_readKey :: buffer
  k_writeKey :: buffer

record Size =
  width :: int
  height :: int

record PlaybackQueueRequestOptions =
  location :: int
  length_opt :: int
  includeMetadata :: "bool option"
  includeLanguageOptions :: "bool option"
  includeLyrics :: "bool option"
  artworkSize :: "Size option"

text \<open>
  \<open>params\<close> in \<open>requestPlaybackQueueWithWait\<close>: the options object with \<open>requestID\<close>,
  \<open>artworkWidth\<close> and \<open>artworkHeight\<close> added and \<open>artworkSize\<close> deleted.
\<close>

record PlaybackQueueRequestParams =
  p_location :: int
  p_length :: int
  p_includeMetadata :: "bool option"
  p_includeLanguageOptions :: "bool option"
  p_includeLyrics :: "bool option"
  p_artworkSize :: "Size option"
  requestID :: string
  artworkWidth :: "int option"
  artworkHeight :: "int option"

record ClientUpdatesConfig =
  artworkUpdates :: bool
  nowPlayingUpdates :: bool
  volumeUpdates :: bool
  keyboardUpdates :: bool

record DeviceInfo =
  uniqueIdentifier :: string
  name :: string
  localizedModelName :: string
  systemBuildVersion :: string
  applicationBundleIdentifier :: string
  applicationBundleVersion :: string
  protocolVersion :: int
  allowsPairing :: bool
  lastSupportedMessageType :: int
  supportsSystemPairing :: bool

datatype ConnectionState = Connected

datatype body =
    DeviceInfoBody DeviceInfo
  | SetConnectionStateBody ConnectionState
  | ClientUpdatesConfigBody ClientUpdatesConfig
  | PlaybackQueueRequestBody PlaybackQueueRequestParams
  | SendHIDEventBody buffer
  | EmptyBody

text \<open>An outbound message: the schema file, the type name and the body given to \<open>create\<close>.\<close>

record outbound =
  definitionFilename :: string
  messageType :: string
  body :: body

text \<open>An inbound message (\<open>Message\<close>) and the parts of its payload the class reads.\<close>

record ContentItem =
  artworkData :: "buffer option"

record PlaybackQueue =
  contentItems :: "ContentItem list option"

record SupportedCommandEntry =
  sc_command :: nat
  sc_enabled :: "bool option"
  sc_canScrub :: "bool option"

record SupportedCommands =
  sc_supportedCommands :: "SupportedCommandEntry list option"

record Payload =
  nowPlayingInfo :: "nat option"
  supportedCommands :: "SupportedCommands option"
  playbackQueue :: "PlaybackQueue option"

record Message =
  msg_type :: message_type
  payload :: "Payload option"

text \<open>The value objects the class constructs from a payload.\<close>

datatype NowPlayingInfo = NowPlayingInfo Payload

datatype SupportedCommand = SupportedCommand nat bool bool

datatype emission =
    EmMessage Message
  | EmNowPlaying "NowPlayingInfo option"
  | EmSupportedCommands "SupportedCommand list"
  | EmPlaybackQueue PlaybackQueue
  | EmDebug string

text \<open>
  The functions registered on the emitter: the two hooks of \<open>setupListeners\<close>, the closure
  \<open>listener\<close> of one call of \<open>messageOfType\<close> (with its promise and its type), and the
  functions of the caller, which are opaque: calling one changes nothing in the session.
\<close>

datatype listener =
    OnNewListenerHook
  | OnRemoveListenerHook
  | MessageOfTypeListener nat message_type
  | UserListener nat

text \<open>Timers of the runtime: the callback of \<open>messageOfType\<close> and the body of the poll.\<close>

datatype callback =
    MessageTimeout nat message_type
  | QueuePoll

record timer =
  due :: nat
  period :: "nat option"
  callback :: callback

datatype promise = Pending | Resolved Message | Rejected error

text \<open>A call to a collaborator, with its arguments; credentials by reference and content.\<close>

datatype effect =
    ConnOpen
  | ConnClose
  | ConnSend outbound bool nat "(nat \<times> Credentials) option"
  | VerifierVerify

record env =
  open_outcome :: "nat \<Rightarrow> string option"
  send_outcome :: "nat \<Rightarrow> outbound \<Rightarrow> string + Message option"
  verify_outcome :: "nat \<Rightarrow> string + keys"
  uuid :: "nat \<Rightarrow> string"
  UInt16toBufferBE :: "nat \<Rightarrow> buffer"

text \<open>
  The state: the fields of the object (\<open>pairingId\<close>, \<open>credentials\<close>, \<open>queuePollTimer\<close>, the
  listeners the inherited emitter holds, \<open>connection.isOpen\<close>) and what the runtime holds
  (the credentials objects of the caller, timers, the clock in milliseconds, the promises
  of \<open>messageOfType\<close>), with the trace of calls and the list of \<open>emit\<close> calls.
\<close>

record session =
  pairingId :: string
  credentials :: "nat option"
  queuePollTimer :: "nat option"
  isOpen :: bool
  events :: "(string \<times> listener) list"
  heap :: "nat \<Rightarrow> Credentials"
  timers :: "(nat \<times> timer) list"
  next_timer :: nat
  clock :: nat
  promises :: "promise list"
  uuids :: nat
  trace :: "effect list"
  emitted :: "emission list"

type_synonym 'a task = "session \<Rightarrow> (error + 'a) \<times> session"

definition await :: "'a task \<Rightarrow> ('a \<Rightarrow> 'b task) \<Rightarrow> 'b task" where
  "await m k s = (case m s of (Inl e, s') \<Rightarrow> (Inl e, s') | (Inr v, s') \<Rightarrow> k v s')"

definition resolved :: "'a \<Rightarrow> 'a task" where
  "resolved v s = (Inr v, s)"

subsection \<open>The collaborators\<close>

text \<open>
  Modelled from the spec: \<open>Connection.open\<close> establishes the transport (the connection is
  open afterwards) or fails with a connect error; \<open>Connection.close\<close> tears it down.
\<close>

definition connection_open :: "env \<Rightarrow> unit task" where
  "connection_open env s =
     (case open_outcome env (length (trace s)) of
        Some f \<Rightarrow> (Inl (External f), s\<lparr>trace := trace s @ [ConnOpen]\<rparr>)
      | None \<Rightarrow> (Inr (), s\<lparr>isOpen := True, trace := trace s @ [ConnOpen]\<rparr>))"

definition connection_close :: "session \<Rightarrow> session" where
  "connection_close s = s\<lparr>isOpen := False, trace := trace s @ [ConnClose]\<rparr>"

definition connection_send ::
  "env \<Rightarrow> outbound \<Rightarrow> bool \<Rightarrow> nat \<Rightarrow> nat option \<Rightarrow> Message option task" where
  "connection_send env message waitForResponse priority creds s =
     (case send_outcome env (length (trace s)) message of
        Inl f \<Rightarrow> Inl (External f)
      | Inr r \<Rightarrow> Inr r,
      s\<lparr>trace := trace s @
          [ConnSend message waitForResponse priority (map_option (\<lambda>c. (c, heap s c)) creds)]\<rparr>)"

definition verifier_verify :: "env \<Rightarrow> keys task" where
  "verifier_verify env s =
     (case verify_outcome env (length (trace s)) of
        Inl f \<Rightarrow> Inl (External f)
      | Inr ks \<Rightarrow> Inr ks,
      s\<lparr>trace := trace s @ [VerifierVerify]\<rparr>)"

subsection \<open>Sending\<close>

definition sendMessage ::
  "env \<Rightarrow> string \<Rightarrow> string \<Rightarrow> body \<Rightarrow> bool \<Rightarrow> nat \<Rightarrow> Message option task" where
  "sendMessage env file type b waitForResponse priority s =
     connection_send env \<lparr>definitionFilename = file, messageType = type, body = b\<rparr>
       waitForResponse priority (credentials s) s"

definition sendIntroduction :: "env \<Rightarrow> Message option task" where
  "sendIntroduction env s =
     sendMessage env ''DeviceInfoMessage'' ''DeviceInfoMessage''
       (DeviceInfoBody \<lparr>uniqueIdentifier = pairingId s,
          name = ''node-appletv'',
          localizedModelName = ''iPhone'',
          systemBuildVersion = ''14G60'',
          applicationBundleIdentifier = ''com.apple.TVRemote'',
          applicationBundleVersion = ''320.18'',
          protocolVersion = 1,
          allowsPairing = True,
          lastSupportedMessageType = 45,
          supportsSystemPairing = True\<rparr>)
       True 0 s"

definition sendConnectionState :: "env \<Rightarrow> Message option task" where
  "sendConnectionState env s =
     connection_send env
       \<lparr>definitionFilename = ''SetConnectionStateMessage'',
        messageType = ''SetConnectionStateMessage'',
        body = SetConnectionStateBody Connected\<rparr>
       False 0 (credentials s) s"

definition sendClientUpdatesConfig :: "env \<Rightarrow> ClientUpdatesConfig \<Rightarrow> Message option task" where
  "sendClientUpdatesConfig env config s =
     sendMessage env ''ClientUpdatesConfigMessage'' ''ClientUpdatesConfigMessage''
       (ClientUpdatesConfigBody config) False 0 s"

definition sendWakeDevice :: "env \<Rightarrow> Message option task" where
  "sendWakeDevice env s = sendMessage env ''WakeDeviceMessage'' ''WakeDeviceMessage'' EmptyBody False 0 s"

subsection \<open>Emitting\<close>

definition hexdigit :: "nat \<Rightarrow> char" where
  "hexdigit n = ''0123456789abcdef'' ! (n mod 16)"

definition toHex :: "buffer \<Rightarrow> string" where
  "toHex bs = concat (map (\<lambda>b. [hexdigit (unat b div 16), hexdigit (unat b mod 16)]) bs)"

subsection \<open>The emitter the class inherits\<close>

text \<open>
  Node's \<open>EventEmitter\<close>: \<open>on\<close> first calls the listeners of \<open>newListener\<close>, then appends;
  \<open>removeListener\<close> removes the most recently added registration of the function, if there
  is one, and then calls the listeners of \<open>removeListener\<close>; \<open>emit\<close> calls the listeners
  registered when it starts, in the order of their registration.
\<close>

definition listeners_of :: "string \<Rightarrow> session \<Rightarrow> listener list" where
  "listeners_of event s = map snd (filter (\<lambda>r. fst r = event) (events s))"

definition listenerCount :: "string \<Rightarrow> session \<Rightarrow> nat" where
  "listenerCount event s = length (listeners_of event s)"

definition remove_last :: "'a \<Rightarrow> 'a list \<Rightarrow> 'a list" where
  "remove_last x xs = rev (remove1 x (rev xs))"

text \<open>
  The timers of the runtime. Node runs a timer the given number of milliseconds after it
  is set when that number is between 1 and \<open>2^31 - 1\<close>, and 1 millisecond after it is set
  otherwise.
\<close>

definition timer_delay :: "int \<Rightarrow> nat" where
  "timer_delay ms = (if 1 \<le> ms \<and> ms \<le> 2147483647 then nat ms else 1)"

definition setInterval :: "callback \<Rightarrow> int \<Rightarrow> session \<Rightarrow> nat \<times> session" where
  "setInterval cb ms s =
     (next_timer s,
      s\<lparr>timers := timers s @
          [(next_timer s,
            \<lparr>due = clock s + timer_delay ms, period = Some (timer_delay ms), callback = cb\<rparr>)],
        next_timer := Suc (next_timer s)\<rparr>)"

definition setTimeout :: "callback \<Rightarrow> int \<Rightarrow> session \<Rightarrow> nat \<times> session" where
  "setTimeout cb ms s =
     (next_timer s,
      s\<lparr>timers := timers s @
          [(next_timer s, \<lparr>due = clock s + timer_delay ms, period = None, callback = cb\<rparr>)],
        next_timer := Suc (next_timer s)\<rparr>)"

definition clearInterval :: "nat \<Rightarrow> session \<Rightarrow> session" where
  "clearInterval t s = s\<lparr>timers := filter (\<lambda>r. fst r \<noteq> t) (timers s)\<rparr>"

definition onNewListener :: "string \<Rightarrow> session \<Rightarrow> session" where
  "onNewListener event s =
     (if queuePollTimer s = None \<and> (event = ''nowPlaying'' \<or> event = ''supportedCommands'')
      then (case setInterval QueuePoll 5000 s of (t, s') \<Rightarrow> s'\<lparr>queuePollTimer := Some t\<rparr>)
      else s)"

definition onRemoveListener :: "string \<Rightarrow> session \<Rightarrow> session" where
  "onRemoveListener event s =
     (case queuePollTimer s of
        None \<Rightarrow> s
      | Some t \<Rightarrow>
          if event = ''nowPlaying'' \<or> event = ''supportedCommands''
          then (let count = listenerCount ''nowPlaying'' s + listenerCount ''supportedCommands'' s
                in if count = 0 then (clearInterval t s)\<lparr>queuePollTimer := None\<rparr> else s)
          else s)"

text \<open>
  A listener called for the notification \<open>hook\<close> (\<open>newListener\<close> or \<open>removeListener\<close>) with
  its arguments, the event and the function: the two hooks pass the event on, the closure
  of \<open>messageOfType\<close> finds no message type in it and does nothing, and a function of the
  caller is opaque.
\<close>

fun call_hook :: "string \<Rightarrow> listener \<Rightarrow> string \<Rightarrow> session \<Rightarrow> session" where
  "call_hook hook OnNewListenerHook event s = onNewListener event s"
| "call_hook hook OnRemoveListenerHook event s = onRemoveListener event s"
| "call_hook hook _ event s = s"

definition on :: "string \<Rightarrow> listener \<Rightarrow> session \<Rightarrow> session" where
  "on event l s =
     (let s' = fold (\<lambda>h. call_hook ''newListener'' h event) (listeners_of ''newListener'' s) s
      in s'\<lparr>events := events s' @ [(event, l)]\<rparr>)"

definition removeListener :: "string \<Rightarrow> listener \<Rightarrow> session \<Rightarrow> session" where
  "removeListener event l s =
     (if (event, l) \<in> set (events s)
      then (let s' = s\<lparr>events := remove_last (event, l) (events s)\<rparr>
            in fold (\<lambda>h. call_hook ''removeListener'' h event) (listeners_of ''removeListener'' s') s')
      else s)"

text \<open>
  Node's \<open>removeAllListeners\<close>, which the class inherits too. With an event: if nothing
  listens to \<open>removeListener\<close> the listeners of the event are dropped, otherwise they are
  removed one by one with \<open>removeListener\<close>, the last added first. Without an event: if
  nothing listens to \<open>removeListener\<close> every listener is dropped, otherwise the events
  that have listeners at the start, other than \<open>removeListener\<close>, are gone through, then
  \<open>removeListener\<close> itself, and the table is emptied. Node takes the events in the order
  in which they got their first listener; \<open>event_names\<close> takes them in the order of their
  oldest registration, which is the same unless an event has lost its oldest listener and
  kept another. The two hooks count the watched listeners at each removal, whatever the
  order.
\<close>

definition event_names :: "session \<Rightarrow> string list" where
  "event_names s = rev (remdups (rev (map fst (events s))))"

definition removeAllListeners_of :: "string \<Rightarrow> session \<Rightarrow> session" where
  "removeAllListeners_of event s =
     (if listeners_of ''removeListener'' s = []
      then s\<lparr>events := filter (\<lambda>r. fst r \<noteq> event) (events s)\<rparr>
      else fold (\<lambda>l. removeListener event l) (rev (listeners_of event s)) s)"

definition removeAllListeners :: "session \<Rightarrow> session" where
  "removeAllListeners s =
     (if listeners_of ''removeListener'' s = []
      then s\<lparr>events := []\<rparr>
      else (let s' = fold removeAllListeners_of
                       (filter (\<lambda>k. k \<noteq> ''removeListener'') (event_names s)) s
            in (removeAllListeners_of ''removeListener'' s')\<lparr>events := []\<rparr>))"

definition resolve :: "nat \<Rightarrow> Message \<Rightarrow> session \<Rightarrow> session" where
  "resolve p m s =
     (if p < length (promises s) \<and> promises s ! p = Pending
      then s\<lparr>promises := (promises s)[p := Resolved m]\<rparr> else s)"

definition reject :: "nat \<Rightarrow> error \<Rightarrow> session \<Rightarrow> session" where
  "reject p e s =
     (if p < length (promises s) \<and> promises s ! p = Pending
      then s\<lparr>promises := (promises s)[p := Rejected e]\<rparr> else s)"

fun event_name :: "emission \<Rightarrow> string" where
  "event_name (EmMessage m) = ''message''"
| "event_name (EmNowPlaying i) = ''nowPlaying''"
| "event_name (EmSupportedCommands cs) = ''supportedCommands''"
| "event_name (EmPlaybackQueue q) = ''playbackQueue''"
| "event_name (EmDebug d) = ''debug''"

text \<open>
  A listener called with an emitted value. The closure of \<open>messageOfType\<close> resolves its
  promise and removes itself on a message of its type; the hooks compare their argument
  with two event names and do nothing here; a function of the caller is opaque.
\<close>

fun call_listener :: "listener \<Rightarrow> emission \<Rightarrow> session \<Rightarrow> session" where
  "call_listener (MessageOfTypeListener p ty) (EmMessage m) s =
     (if msg_type m = ty
      then removeListener ''message'' (MessageOfTypeListener p ty) (resolve p m s)
      else s)"
| "call_listener _ _ s = s"

definition emit :: "emission \<Rightarrow> session \<Rightarrow> session" where
  "emit em s =
     (let s' = s\<lparr>emitted := emitted s @ [em]\<rparr>
      in fold (\<lambda>l. call_listener l em) (listeners_of (event_name em) s') s')"

subsection \<open>Opening\<close>

text \<open>
  \<open>install_keys\<close> is the two assignments to \<open>this.credentials.readKey\<close> and
  \<open>this.credentials.writeKey\<close>, which write into the object the caller passed;
  \<open>emit_debug_keys\<close> is the \<open>debug\<close> emission after them. Reading a property of an
  undefined value is a \<open>TypeError\<close>. In \<open>openConnection\<close> the two \<open>if (credentials)\<close>
  blocks follow the assignment of the field.
\<close>

definition rejected :: "error \<Rightarrow> 'a task" where
  "rejected e s = (Inl e, s)"

definition install_keys :: "keys \<Rightarrow> unit task" where
  "install_keys ks s =
     (case credentials s of
        None \<Rightarrow> (Inl TypeError, s)
      | Some c \<Rightarrow>
          (Inr (), s\<lparr>heap := (heap s)(c := (heap s c)\<lparr>readKey := Some (k_readKey ks),
                                                     writeKey := Some (k_writeKey ks)\<rparr>)\<rparr>))"

definition emit_debug_keys :: "unit task" where
  "emit_debug_keys s =
     (case credentials s of
        None \<Rightarrow> (Inl TypeError, s)
      | Some c \<Rightarrow>
          (case (readKey (heap s c), writeKey (heap s c)) of
             (Some r, Some w) \<Rightarrow>
               (Inr (), emit (EmDebug (''DEBUG: Keys Read='' @ toHex r @ '', Write='' @ toHex w)) s)
           | _ \<Rightarrow> (Inl TypeError, s)))"

definition openConnection :: "env \<Rightarrow> nat option \<Rightarrow> unit task" where
  "openConnection env creds s =
     (let s1 = (case creds of Some c \<Rightarrow> s\<lparr>pairingId := c_pairingId (heap s c)\<rparr> | None \<Rightarrow> s)
      in await (connection_open env) (\<lambda>_.
         await (sendIntroduction env) (\<lambda>_ s2.
         await (if creds \<noteq> None
                then await (verifier_verify env) (\<lambda>ks.
                     await (install_keys ks) (\<lambda>_.
                     await emit_debug_keys (\<lambda>_.
                     await (sendConnectionState env) (\<lambda>_. resolved ()))))
                else resolved ()) (\<lambda>_.
         await (if creds \<noteq> None
                then await (sendClientUpdatesConfig env
                       \<lparr>artworkUpdates = True, nowPlayingUpdates = True,
                        volumeUpdates = False, keyboardUpdates = False\<rparr>) (\<lambda>_. resolved ())
                else resolved ()) (\<lambda>_.
         resolved ())) (s2\<lparr>credentials := creds\<rparr>))) s1)"

definition closeConnection :: "session \<Rightarrow> session" where
  "closeConnection s = connection_close s"

subsection \<open>Requests\<close>

definition requestPlaybackQueueWithWait ::
  "env \<Rightarrow> PlaybackQueueRequestOptions \<Rightarrow> bool \<Rightarrow> Message option task" where
  "requestPlaybackQueueWithWait env options waitForResponse s =
     (let rid = uuid env (uuids s);
          s' = s\<lparr>uuids := Suc (uuids s)\<rparr>;
          params = \<lparr>p_location = location options,
                    p_length = length_opt options,
                    p_includeMetadata = includeMetadata options,
                    p_includeLanguageOptions = includeLanguageOptions options,
                    p_includeLyrics = includeLyrics options,
                    p_artworkSize = None,
                    requestID = rid,
                    artworkWidth = map_option width (artworkSize options),
                    artworkHeight = map_option height (artworkSize options)\<rparr>
      in sendMessage env ''PlaybackQueueRequestMessage'' ''PlaybackQueueRequestMessage''
           (PlaybackQueueRequestBody params) waitForResponse 0 s')"

definition requestPlaybackQueue :: "env \<Rightarrow> PlaybackQueueRequestOptions \<Rightarrow> Message option task" where
  "requestPlaybackQueue env options s = requestPlaybackQueueWithWait env options True s"

text \<open>\<open>response?.payload?.playbackQueue?.contentItems?.[0]?.artworkData\<close>\<close>

definition first_item :: "'a list \<Rightarrow> 'a option" where
  "first_item xs = (case xs of [] \<Rightarrow> None | x # _ \<Rightarrow> Some x)"

definition artwork_of :: "Message option \<Rightarrow> buffer option" where
  "artwork_of response =
     Option.bind (Option.bind (Option.bind (Option.bind (Option.bind response payload)
       playbackQueue) contentItems) first_item) artworkData"

definition requestArtwork :: "env \<Rightarrow> int option \<Rightarrow> int option \<Rightarrow> buffer task" where
  "requestArtwork env w h s =
     (let width = (case w of None \<Rightarrow> 400 | Some x \<Rightarrow> x);
          height = (case h of None \<Rightarrow> 400 | Some x \<Rightarrow> x)
      in await (requestPlaybackQueueWithWait env
                  \<lparr>location = 0, length_opt = 1, includeMetadata = None,
                   includeLanguageOptions = None, includeLyrics = None,
                   artworkSize = Some \<lparr>width = width, height = height\<rparr>\<rparr> True)
           (\<lambda>response. case artwork_of response of
                          Some data \<Rightarrow> resolved data
                        | None \<Rightarrow> rejected NoArtworkAvailable) s)"

subsection \<open>Keys\<close>

datatype Key = Up | Down | Left | Right | Menu | Play | Pause | Next | Previous | Suspend | Select

text \<open>
  \<open>hidEventData\<close>: the bytes of \<open>'438922cf08020000'\<close>, those of the second hexadecimal
  string (35 bytes), the page, the usage and 1 or 0 as \<open>UInt16toBufferBE\<close> gives them, and
  those of \<open>'0000000000000001000000'\<close>.
\<close>

definition hidEventData :: "env \<Rightarrow> nat \<Rightarrow> nat \<Rightarrow> bool \<Rightarrow> buffer" where
  "hidEventData env usePage usage down =
     [0x43, 0x89, 0x22, 0xCF, 0x08, 0x02, 0x00, 0x00] @
     [0x00, 0x00, 0x00, 0x00, 0x00, 0x00, 0x00, 0x00, 0x01, 0x00, 0x00, 0x00,
      0x00, 0x00, 0x00, 0x00, 0x02, 0x00, 0x00, 0x00, 0x20, 0x00, 0x00, 0x00,
      0x03, 0x00, 0x00, 0x00, 0x01, 0x00, 0x00, 0x00, 0x00, 0x00, 0x00] @
     (UInt16toBufferBE env usePage @ UInt16toBufferBE env usage @
      (if down then UInt16toBufferBE env 1 else UInt16toBufferBE env 0)) @
     [0x00, 0x00, 0x00, 0x00, 0x00, 0x00, 0x00, 0x01, 0x00, 0x00, 0x00]"

definition sendKeyPress :: "env \<Rightarrow> nat \<Rightarrow> nat \<Rightarrow> bool \<Rightarrow> unit task" where
  "sendKeyPress env usePage usage down s =
     await (sendMessage env ''SendHIDEventMessage'' ''SendHIDEventMessage''
              (SendHIDEventBody (hidEventData env usePage usage down)) False 0)
       (\<lambda>_. resolved ()) s"

definition sendKeyPressAndRelease :: "env \<Rightarrow> nat \<Rightarrow> nat \<Rightarrow> unit task" where
  "sendKeyPressAndRelease env usePage usage s =
     await (sendKeyPress env usePage usage True)
       (\<lambda>_. sendKeyPress env usePage usage False) s"

fun sendKeyCommand :: "env \<Rightarrow> Key \<Rightarrow> unit task" where
  "sendKeyCommand env Up = sendKeyPressAndRelease env 1 0x8C"
| "sendKeyCommand env Down = sendKeyPressAndRelease env 1 0x8D"
| "sendKeyCommand env Left = sendKeyPressAndRelease env 1 0x8B"
| "sendKeyCommand env Right = sendKeyPressAndRelease env 1 0x8A"
| "sendKeyCommand env Menu = sendKeyPressAndRelease env 1 0x86"
| "sendKeyCommand env Play = sendKeyPressAndRelease env 12 0xB0"
| "sendKeyCommand env Pause = sendKeyPressAndRelease env 12 0xB1"
| "sendKeyCommand env Next = sendKeyPressAndRelease env 12 0xB5"
| "sendKeyCommand env Previous = sendKeyPressAndRelease env 12 0xB6"
| "sendKeyCommand env Suspend = sendKeyPressAndRelease env 1 0x82"
| "sendKeyCommand env Select = sendKeyPressAndRelease env 1 0x89"

definition key :: "string \<Rightarrow> Key option" where
  "key string =
     (if string = ''up'' then Some Up
      else if string = ''down'' then Some Down
      else if string = ''left'' then Some Left
      else if string = ''right'' then Some Right
      else if string = ''menu'' then Some Menu
      else if string = ''play'' then Some Play
      else if string = ''pause'' then Some Pause
      else if string = ''next'' then Some Next
      else if string = ''previous'' then Some Previous
      else if string = ''suspend'' then Some Suspend
      else if string = ''select'' then Some Select
      else None)"

subsection \<open>Inbound messages and waits\<close>

definition onReceiveMessage :: "Message \<Rightarrow> session \<Rightarrow> session" where
  "onReceiveMessage message s =
     (let s1 = emit (EmMessage message) s
      in if msg_type message = SetStateMessage
         then (case payload message of
                 None \<Rightarrow> emit (EmNowPlaying None) s1
               | Some p \<Rightarrow>
                   (let s2 = (if nowPlayingInfo p \<noteq> None
                              then emit (EmNowPlaying (Some (NowPlayingInfo p))) s1 else s1);
                        s3 = (case supportedCommands p of
                                Some sc \<Rightarrow>
                                  emit (EmSupportedCommands
                                    (map (\<lambda>c. SupportedCommand (sc_command c)
                                                (sc_enabled c = Some True) (sc_canScrub c = Some True))
                                       (case sc_supportedCommands sc of None \<Rightarrow> [] | Some cs \<Rightarrow> cs))) s2
                              | None \<Rightarrow> s2)
                    in (case playbackQueue p of
                          Some q \<Rightarrow> emit (EmPlaybackQueue q) s3
                        | None \<Rightarrow> s3)))
         else s1)"

text \<open>
  \<open>messageOfType\<close>: a new promise, the timeout that rejects it, and the listener that
  resolves it, registered in this order; the result is the promise. The timeout is a
  number of seconds, here an integer, 5 when omitted.
\<close>

definition messageOfType :: "message_type \<Rightarrow> int option \<Rightarrow> session \<Rightarrow> nat \<times> session" where
  "messageOfType ty timeout s =
     (let seconds = (case timeout of None \<Rightarrow> 5 | Some t \<Rightarrow> t);
          p = length (promises s);
          s1 = s\<lparr>promises := promises s @ [Pending]\<rparr>;
          s2 = snd (setTimeout (MessageTimeout p ty) (seconds * 1000) s1)
      in (p, on ''message'' (MessageOfTypeListener p ty) s2))"

subsection \<open>The poll and the timers\<close>

definition then_p :: "error + 'a \<Rightarrow> ('a \<Rightarrow> 'b) \<Rightarrow> error + 'b" where
  "then_p r f = (case r of Inl e \<Rightarrow> Inl e | Inr v \<Rightarrow> Inr (f v))"

definition catch_p :: "error + 'a \<Rightarrow> (error \<Rightarrow> 'a) \<Rightarrow> error + 'a" where
  "catch_p r f = (case r of Inl e \<Rightarrow> Inr (f e) | Inr v \<Rightarrow> Inr v)"

text \<open>The function given to \<open>setInterval\<close>, with the outcome of the promise it drops.\<close>

definition queuePoll :: "env \<Rightarrow> unit task" where
  "queuePoll env s =
     (if isOpen s
      then (case requestPlaybackQueueWithWait env
                   \<lparr>location = 0, length_opt = 100, includeMetadata = None,
                    includeLanguageOptions = None, includeLyrics = None,
                    artworkSize = Some \<lparr>width = - 1, height = 368\<rparr>\<rparr> False s of
              (r, s') \<Rightarrow> (catch_p (then_p r (\<lambda>_. ())) (\<lambda>error. ()), s'))
      else (Inr (), s))"

fun run_callback :: "env \<Rightarrow> callback \<Rightarrow> session \<Rightarrow> session" where
  "run_callback env (MessageTimeout p ty) s =
     removeListener ''message'' (MessageOfTypeListener p ty)
       (reject p (TimedOutWaitingForMessageType ty) s)"
| "run_callback env QueuePoll s = snd (queuePoll env s)"

text \<open>
  The runtime: the clock advances, and a timer that is due runs its callback; a timeout is
  gone once it has run, an interval is due again one period later.
\<close>

definition advance :: "nat \<Rightarrow> session \<Rightarrow> session" where
  "advance d s = s\<lparr>clock := clock s + d\<rparr>"

definition fire :: "env \<Rightarrow> nat \<Rightarrow> session \<Rightarrow> session" where
  "fire env t s =
     (case map_of (timers s) t of
        None \<Rightarrow> s
      | Some tm \<Rightarrow>
          if due tm \<le> clock s
          then run_callback env (callback tm)
                 (case period tm of
                    None \<Rightarrow> s\<lparr>timers := filter (\<lambda>r. fst r \<noteq> t) (timers s)\<rparr>
                  | Some ms \<Rightarrow>
                      s\<lparr>timers := map (\<lambda>r. if fst r = t then (t, (snd r)\<lparr>due := due (snd r) + ms\<rparr>) else r)
                                     (timers s)\<rparr>)
          else s)"

subsection \<open>Construction\<close>

definition setupListeners :: "session \<Rightarrow> session" where
  "setupListeners s = on ''removeListener'' OnRemoveListenerHook (on ''newListener'' OnNewListenerHook s)"

definition new_AppleTV :: "env \<Rightarrow> (nat \<Rightarrow> Credentials) \<Rightarrow> session" where
  "new_AppleTV env h =
     setupListeners
       \<lparr>pairingId = uuid env 0, credentials = None, queuePollTimer = None, isOpen = False,
        events = [], heap = h, timers = [], next_timer = 0, clock = 0, promises = [],
        uuids = 1, trace = [], emitted = []\<rparr>"

section \<open>Notions used in the statements\<close>

text \<open>The messages handed to \<open>connection.send\<close>, in the order of the calls.\<close>

fun sent :: "effect list \<Rightarrow> outbound list" where
  "sent [] = []"
| "sent (ConnSend m w p c # es) = m # sent es"
| "sent (e # es) = sent es"

text \<open>The three messages of the handshake.\<close>

definition introduction :: "string \<Rightarrow> outbound" where
  "introduction pid =
     \<lparr>definitionFilename = ''DeviceInfoMessage'', messageType = ''DeviceInfoMessage'',
      body = DeviceInfoBody \<lparr>uniqueIdentifier = pid,
          name = ''node-appletv'',
          localizedModelName = ''iPhone'',
          systemBuildVersion = ''14G60'',
          applicationBundleIdentifier = ''com.apple.TVRemote'',
          applicationBundleVersion = ''320.18'',
          protocolVersion = 1,
          allowsPairing = True,
          lastSupportedMessageType = 45,
          supportsSystemPairing = True\<rparr>\<rparr>"

definition connectionState :: outbound where
  "connectionState =
     \<lparr>definitionFilename = ''SetConnectionStateMessage'',
      messageType = ''SetConnectionStateMessage'',
      body = SetConnectionStateBody Connected\<rparr>"

definition clientUpdatesConfig :: outbound where
  "clientUpdatesConfig =
     \<lparr>definitionFilename = ''ClientUpdatesConfigMessage'',
      messageType = ''ClientUpdatesConfigMessage'',
      body = ClientUpdatesConfigBody
        \<lparr>artworkUpdates = True, nowPlayingUpdates = True,
         volumeUpdates = False, keyboardUpdates = False\<rparr>\<rparr>"

text \<open>The error the environment gives to the call \<open>x\<close> made as the \<open>n\<close>-th of the trace.\<close>

fun failure :: "env \<Rightarrow> nat \<Rightarrow> effect \<Rightarrow> string option" where
  "failure env n ConnOpen = open_outcome env n"
| "failure env n (ConnSend m w p c) = (case send_outcome env n m of Inl f \<Rightarrow> Some f | Inr r \<Rightarrow> None)"
| "failure env n VerifierVerify = (case verify_outcome env n of Inl f \<Rightarrow> Some f | Inr r \<Rightarrow> None)"
| "failure env n ConnClose = None"

text \<open>A credentials object with the keys of a verification written into it.\<close>

definition with_keys :: "keys \<Rightarrow> Credentials \<Rightarrow> Credentials" where
  "with_keys ks c = c\<lparr>readKey := Some (k_readKey ks), writeKey := Some (k_writeKey ks)\<rparr>"

definition debug_keys :: "keys \<Rightarrow> emission" where
  "debug_keys ks =
     EmDebug (''DEBUG: Keys Read='' @ toHex (k_readKey ks) @ '', Write='' @ toHex (k_writeKey ks))"

text \<open>A playback-queue request as the connection is given it.\<close>

definition playbackQueueRequest :: "string \<Rightarrow> int \<Rightarrow> int \<Rightarrow> int \<Rightarrow> int \<Rightarrow> outbound" where
  "playbackQueueRequest rid loc len w h =
     \<lparr>definitionFilename = ''PlaybackQueueRequestMessage'',
      messageType = ''PlaybackQueueRequestMessage'',
      body = PlaybackQueueRequestBody
        \<lparr>p_location = loc, p_length = len, p_includeMetadata = None,
         p_includeLanguageOptions = None, p_includeLyrics = None, p_artworkSize = None,
         requestID = rid, artworkWidth = Some w, artworkHeight = Some h\<rparr>\<rparr>"

text \<open>
  The static mapping of keys to (usage page, usage code), as the specification states it
  (with the three keys it leaves unnamed).
\<close>

definition static_mapping :: "Key \<Rightarrow> nat \<times> nat" where
  "static_mapping k =
     (case k of
        Up \<Rightarrow> (1, 0x8C) | Down \<Rightarrow> (1, 0x8D) | Left \<Rightarrow> (1, 0x8B) | Right \<Rightarrow> (1, 0x8A)
      | Menu \<Rightarrow> (1, 0x86) | Play \<Rightarrow> (12, 0xB0) | Pause \<Rightarrow> (12, 0xB1) | Next \<Rightarrow> (12, 0xB5)
      | Previous \<Rightarrow> (12, 0xB6) | Suspend \<Rightarrow> (1, 0x82) | Select \<Rightarrow> (1, 0x89))"

definition hidEvent :: "env \<Rightarrow> nat \<times> nat \<Rightarrow> bool \<Rightarrow> outbound" where
  "hidEvent env pair down =
     \<lparr>definitionFilename = ''SendHIDEventMessage'', messageType = ''SendHIDEventMessage'',
      body = SendHIDEventBody (hidEventData env (fst pair) (snd pair) down)\<rparr>"

text \<open>
  A run of the poll: one tick of the interval for each element of the list, which says
  whether the connection is open at that tick.
\<close>

fun ticks :: "env \<Rightarrow> bool list \<Rightarrow> session \<Rightarrow> session" where
  "ticks env [] s = s"
| "ticks env (b # bs) s = ticks env bs (run_callback env QueuePoll (s\<lparr>isOpen := b\<rparr>))"

text \<open>The list of values \<open>SetStateMessage\<close> projects the supported commands to.\<close>

definition projected :: "SupportedCommands \<Rightarrow> SupportedCommand list" where
  "projected sc =
     map (\<lambda>c. SupportedCommand (sc_command c) (sc_enabled c = Some True) (sc_canScrub c = Some True))
       (case sc_supportedCommands sc of None \<Rightarrow> [] | Some cs \<Rightarrow> cs)"

text \<open>What the emitter, the timers and the promises leave alone.\<close>

definition untouched :: "session \<Rightarrow> session \<Rightarrow> bool" where
  "untouched s s' \<longleftrightarrow>
     trace s' = trace s \<and> heap s' = heap s \<and> credentials s' = credentials s \<and>
     isOpen s' = isOpen s \<and> pairingId s' = pairingId s \<and> uuids s' = uuids s \<and>
     clock s' = clock s \<and> emitted s' = emitted s"

text \<open>
  Concrete surroundings for the examples: an environment in which every call succeeds, one
  in which the verification fails, one in which no send succeeds; a caller whose
  credentials objects hold no keys yet; and a freshly constructed session.
\<close>

definition env_ok :: env where
  "env_ok =
     \<lparr>open_outcome = (\<lambda>n. None),
      send_outcome = (\<lambda>n m. Inr None),
      verify_outcome = (\<lambda>n. Inr \<lparr>k_readKey = [0x0A, 0x0B], k_writeKey = [0x0C]\<rparr>),
      uuid = (\<lambda>n. replicate (Suc n) CHR ''u''),
      UInt16toBufferBE = (\<lambda>n. [word_of_nat (n div 256), word_of_nat n])\<rparr>"


definition env_send_fails :: env where
  "env_send_fails = env_ok\<lparr>send_outcome := (\<lambda>n m. Inl ''write failed'')\<rparr>"

definition caller_heap :: "nat \<Rightarrow> Credentials" where
  "caller_heap = (\<lambda>r. \<lparr>c_pairingId = ''paired'', readKey = None, writeKey = None\<rparr>)"

definition fresh :: session where
  "fresh = new_AppleTV env_ok caller_heap"

section \<open>Runs of a session\<close>

text \<open>
  What can happen to a session: the caller adds a function of its own as a listener with
  \<open>on\<close>, removes a listener with \<open>removeListener\<close> (any registered function, the hooks of
  \<open>setupListeners\<close> and the closures of \<open>messageOfType\<close> too, which \<open>listeners\<close> hands out),
  removes the listeners of one event or of all of them with \<open>removeAllListeners\<close>, the
  connection delivers a message, the clock advances, the runtime runs a timer, and the
  caller calls a method of the class. Each of them runs to its end before the next one
  starts. What the caller emits on the instance itself, and listeners added with \<open>once\<close>
  or \<open>prependListener\<close>, are not part of a run.
\<close>

datatype action =
    On string nat
  | Off string listener
  | RemoveAllListeners "string option"
  | Receive Message
  | Advance nat
  | Fire nat
  | MessageOfType message_type "int option"
  | OpenConnection "nat option"
  | CloseConnection
  | RequestPlaybackQueue PlaybackQueueRequestOptions
  | RequestArtwork "int option" "int option"
  | SendKeyCommand Key

fun act :: "env \<Rightarrow> action \<Rightarrow> session \<Rightarrow> session" where
  "act env (On event n) s = on event (UserListener n) s"
| "act env (Off event l) s = removeListener event l s"
| "act env (RemoveAllListeners None) s = removeAllListeners s"
| "act env (RemoveAllListeners (Some event)) s = removeAllListeners_of event s"
| "act env (Receive m) s = onReceiveMessage m s"
| "act env (Advance d) s = advance d s"
| "act env (Fire t) s = fire env t s"
| "act env (MessageOfType ty timeout) s = snd (messageOfType ty timeout s)"
| "act env (OpenConnection creds) s = snd (openConnection env creds s)"
| "act env CloseConnection s = closeConnection s"
| "act env (RequestPlaybackQueue options) s = snd (requestPlaybackQueue env options s)"
| "act env (RequestArtwork w h) s = snd (requestArtwork env w h s)"
| "act env (SendKeyCommand k) s = snd (sendKeyCommand env k s)"

definition run :: "env \<Rightarrow> action list \<Rightarrow> session \<Rightarrow> session" where
  "run env acts s = fold (act env) acts s"

text \<open>The listeners that keep the poll alive, and the polls the runtime holds.\<close>

definition watched_event :: "string \<Rightarrow> bool" where
  "watched_event ev \<longleftrightarrow> ev = ''nowPlaying'' \<or> ev = ''supportedCommands''"

definition watched :: "session \<Rightarrow> nat" where
  "watched s = listenerCount ''nowPlaying'' s + listenerCount ''supportedCommands'' s"

definition polling_tasks :: "session \<Rightarrow> nat list" where
  "polling_tasks s = map fst (filter (\<lambda>r. callback (snd r) = QueuePoll) (timers s))"

text \<open>
  What holds of every session a run reaches: timers have distinct handles below the next
  one, and the intervals are the polls; a timer or listener of \<open>messageOfType\<close> belongs to
  a promise that exists; and the runtime holds the poll of \<open>queuePollTimer\<close> and no other.
\<close>

definition timers_ok :: "session \<Rightarrow> bool" where
  "timers_ok s \<longleftrightarrow>
     distinct (map fst (timers s)) \<and>
     (\<forall>r \<in> set (timers s). fst r < next_timer s \<and>
        (callback (snd r) = QueuePoll) = (period (snd r) \<noteq> None))"

definition refs_ok :: "session \<Rightarrow> bool" where
  "refs_ok s \<longleftrightarrow>
     (\<forall>r \<in> set (timers s). \<forall>q ty. callback (snd r) = MessageTimeout q ty \<longrightarrow> q < length (promises s)) \<and>
     (\<forall>r \<in> set (events s). \<forall>q ty. snd r = MessageOfTypeListener q ty \<longrightarrow> q < length (promises s))"

definition polling_ok :: "session \<Rightarrow> bool" where
  "polling_ok s \<longleftrightarrow>
     polling_tasks s = (case queuePollTimer s of None \<Rightarrow> [] | Some t \<Rightarrow> [t])"

definition wf :: "session \<Rightarrow> bool" where
  "wf s \<longleftrightarrow> timers_ok s \<and> refs_ok s \<and> polling_ok s"

text \<open>
  The two hooks of \<open>setupListeners\<close>. They are in place when they are registered first and
  nowhere else. An action keeps them when it is not their removal: not
  \<open>removeListener\<close> of one of the two, and not \<open>removeAllListeners\<close> of their events or of
  all events. While they are in place the poll follows the listeners: the field is set
  exactly when a watched listener is registered.
\<close>

definition hooks :: "(string \<times> listener) list" where
  "hooks = [(''newListener'', OnNewListenerHook), (''removeListener'', OnRemoveListenerHook)]"

fun is_hook :: "listener \<Rightarrow> bool" where
  "is_hook OnNewListenerHook = True"
| "is_hook OnRemoveListenerHook = True"
| "is_hook l = False"

definition hooked :: "session \<Rightarrow> bool" where
  "hooked s \<longleftrightarrow> (\<exists>rest. events s = hooks @ rest \<and> (\<forall>r \<in> set rest. \<not> is_hook (snd r)))"

fun keeps_hooks :: "action \<Rightarrow> bool" where
  "keeps_hooks (Off ev l) = ((ev, l) \<notin> set hooks)"
| "keeps_hooks (RemoveAllListeners None) = False"
| "keeps_hooks (RemoveAllListeners (Some ev)) = (ev \<noteq> ''newListener'' \<and> ev \<noteq> ''removeListener'')"
| "keeps_hooks a = True"

definition follows :: "session \<Rightarrow> bool" where
  "follows s \<longleftrightarrow> (queuePollTimer s \<noteq> None) = (0 < watched s)"

definition tended :: "session \<Rightarrow> bool" where
  "tended s \<longleftrightarrow> hooked s \<and> follows s"

text \<open>The part of the state the emitter, the timers and the promises live in.\<close>

definition core ::
  "session \<Rightarrow> (string \<times> listener) list \<times> (nat \<times> timer) list \<times> nat \<times> promise list \<times> nat option" where
  "core s = (events s, timers s, next_timer s, promises s, queuePollTimer s)"

text \<open>
  A wait of \<open>messageOfType\<close> that is not settled: its promise \<open>p\<close> is pending, no listener
  but its own, registered at most once, can resolve \<open>p\<close>, and its timer \<open>t\<close>, due at \<open>d\<close>,
  is the one timer that can reject \<open>p\<close>.
\<close>

fun refers :: "nat \<Rightarrow> listener \<Rightarrow> bool" where
  "refers p (MessageOfTypeListener q ty) = (q = p)"
| "refers p l = False"

fun rejects :: "nat \<Rightarrow> callback \<Rightarrow> bool" where
  "rejects p (MessageTimeout q ty) = (q = p)"
| "rejects p QueuePoll = False"

definition at_most :: "'a \<Rightarrow> 'a list \<Rightarrow> bool" where
  "at_most x xs \<longleftrightarrow> xs = [] \<or> xs = [x]"

definition waiting :: "nat \<Rightarrow> message_type \<Rightarrow> nat \<Rightarrow> nat \<Rightarrow> session \<Rightarrow> bool" where
  "waiting p ty t d s \<longleftrightarrow>
     p < length (promises s) \<and> promises s ! p = Pending \<and>
     at_most (''message'', MessageOfTypeListener p ty) (filter (\<lambda>r. refers p (snd r)) (events s)) \<and>
     filter (\<lambda>r. rejects p (callback (snd r))) (timers s) =
       [(t, \<lparr>due = d, period = None, callback = MessageTimeout p ty\<rparr>)]"

text \<open>
  An action during which no message of type \<open>ty\<close> arrives and the timer \<open>t\<close> does not
  run; an action that does not remove the listener of the promise \<open>p\<close>.
\<close>

fun quiet :: "message_type \<Rightarrow> nat \<Rightarrow> action \<Rightarrow> bool" where
  "quiet ty t (Fire t') = (t' \<noteq> t)"
| "quiet ty t (Receive m) = (msg_type m \<noteq> ty)"
| "quiet ty t a = True"

fun keeps_wait :: "nat \<Rightarrow> action \<Rightarrow> bool" where
  "keeps_wait p (Off ev l) = (\<not> refers p l)"
| "keeps_wait p (RemoveAllListeners None) = False"
| "keeps_wait p (RemoveAllListeners (Some ev)) = (ev \<noteq> ''message'')"
| "keeps_wait p a = True"

text \<open>Two inbound messages for the examples.\<close>

definition device_info_message :: Message where
  "device_info_message = \<lparr>msg_type = DeviceInfoMessage, payload = None\<rparr>"

definition set_state_message :: Message where
  "set_state_message = \<lparr>msg_type = SetStateMessage, payload = None\<rparr>"

section \<open>Proofs\<close>

subsection \<open>Frames\<close>

lemma sent_append: "sent (xs @ ys) = sent xs @ sent ys"
  by (induction xs rule: sent.induct) auto

lemma with_keys_sel [simp]:
  "readKey (with_keys ks c) = Some (k_readKey ks)" "writeKey (with_keys ks c) = Some (k_writeKey ks)"
  by (simp_all add: with_keys_def)

lemma untouched_refl: "untouched s s"
  by (simp add: untouched_def)

lemma untouched_trans: "untouched s s1 \<Longrightarrow> untouched s1 s2 \<Longrightarrow> untouched s s2"
  by (simp add: untouched_def)

lemma untouched_fold:
  assumes "\<And>x s. untouched s (f x s)"
  shows "untouched s (fold f xs s)"
proof (induction xs arbitrary: s)
  case Nil
  show ?case by (simp add: untouched_refl)
next
  case (Cons x xs)
  have "untouched s (f x s)" by (rule assms)
  moreover have "untouched (f x s) (fold f xs (f x s))" by (rule Cons.IH)
  ultimately show ?case by (simp add: untouched_trans)
qed

lemma untouched_onNewListener: "untouched s (onNewListener event s)"
  by (simp add: onNewListener_def setInterval_def untouched_def)

lemma untouched_onRemoveListener: "untouched s (onRemoveListener event s)"
  by (simp add: onRemoveListener_def clearInterval_def Let_def untouched_def split: option.splits)

lemma untouched_call_hook: "untouched s (call_hook hook l event s)"
  by (cases l) (simp_all add: untouched_onNewListener untouched_onRemoveListener untouched_refl)

lemma untouched_on: "untouched s (on event l s)"
proof -
  have "untouched s (fold (\<lambda>h. call_hook ''newListener'' h event) (listeners_of ''newListener'' s) s)"
    by (rule untouched_fold) (rule untouched_call_hook)
  then show ?thesis by (simp add: on_def Let_def untouched_def)
qed

lemma untouched_removeListener: "untouched s (removeListener event l s)"
proof (cases "(event, l) \<in> set (events s)")
  case True
  define s' where "s' = s\<lparr>events := remove_last (event, l) (events s)\<rparr>"
  have "untouched s' (fold (\<lambda>h. call_hook ''removeListener'' h event) (listeners_of ''removeListener'' s') s')"
    by (rule untouched_fold) (rule untouched_call_hook)
  moreover have "untouched s s'" by (simp add: s'_def untouched_def)
  ultimately show ?thesis using True
    by (simp add: removeListener_def Let_def s'_def untouched_trans)
next
  case False
  then show ?thesis by (simp add: removeListener_def untouched_refl)
qed

lemma untouched_resolve: "untouched s (resolve p m s)"
  by (simp add: resolve_def untouched_def)

lemma untouched_reject: "untouched s (reject p e s)"
  by (simp add: reject_def untouched_def)

lemma untouched_call_listener: "untouched s (call_listener l em s)"
proof (cases l)
  case (MessageOfTypeListener p ty)
  show ?thesis
  proof (cases em)
    case (EmMessage m)
    have "untouched s (removeListener ''message'' (MessageOfTypeListener p ty) (resolve p m s))"
      by (rule untouched_trans [OF untouched_resolve untouched_removeListener])
    then show ?thesis using MessageOfTypeListener EmMessage by (simp add: untouched_refl)
  qed (simp_all add: MessageOfTypeListener untouched_refl)
qed (simp_all add: untouched_refl)

lemma untouched_emit: "untouched (s\<lparr>emitted := emitted s @ [em]\<rparr>) (emit em s)"
  unfolding emit_def Let_def by (rule untouched_fold) (rule untouched_call_listener)

lemma emit_frame [simp]:
  "trace (emit em s) = trace s" "heap (emit em s) = heap s"
  "credentials (emit em s) = credentials s" "isOpen (emit em s) = isOpen s"
  "pairingId (emit em s) = pairingId s" "uuids (emit em s) = uuids s"
  "emitted (emit em s) = emitted s @ [em]"
  using untouched_emit [of s em] by (simp_all add: untouched_def)

lemma untouched_new_AppleTV:
  "untouched
     \<lparr>pairingId = uuid env 0, credentials = None, queuePollTimer = None, isOpen = False,
      events = [], heap = h, timers = [], next_timer = 0, clock = 0, promises = [],
      uuids = 1, trace = [], emitted = []\<rparr>
     (new_AppleTV env h)"
  unfolding new_AppleTV_def setupListeners_def
  by (rule untouched_trans [OF untouched_on untouched_on])

lemma new_AppleTV_fields:
  "trace (new_AppleTV env h) = []" "heap (new_AppleTV env h) = h"
  "credentials (new_AppleTV env h) = None" "isOpen (new_AppleTV env h) = False"
  "pairingId (new_AppleTV env h) = uuid env 0" "uuids (new_AppleTV env h) = 1"
  "emitted (new_AppleTV env h) = []"
  using untouched_new_AppleTV [of env h] by (simp_all add: untouched_def)

subsection \<open>Running an \<open>async\<close> body\<close>

lemma await_resolved: "await (resolved v) k s = k v s"
  by (simp add: await_def resolved_def)

lemma await_assoc: "await (await m k1) k2 = await m (\<lambda>x. await (k1 x) k2)"
  by (rule ext) (simp add: await_def split: prod.split sum.split)

lemma await_connection_open:
  "await (connection_open env) k s =
     (case open_outcome env (length (trace s)) of
        Some f \<Rightarrow> (Inl (External f), s\<lparr>trace := trace s @ [ConnOpen]\<rparr>)
      | None \<Rightarrow> k () (s\<lparr>isOpen := True, trace := trace s @ [ConnOpen]\<rparr>))"
  by (simp add: await_def connection_open_def split: option.split)

lemma await_connection_send:
  "await (connection_send env m w p c) k s =
     (case send_outcome env (length (trace s)) m of
        Inl f \<Rightarrow> (Inl (External f),
                   s\<lparr>trace := trace s @ [ConnSend m w p (map_option (\<lambda>c. (c, heap s c)) c)]\<rparr>)
      | Inr r \<Rightarrow> k r (s\<lparr>trace := trace s @ [ConnSend m w p (map_option (\<lambda>c. (c, heap s c)) c)]\<rparr>))"
  by (simp add: await_def connection_send_def split: sum.split)

lemma await_verifier_verify:
  "await (verifier_verify env) k s =
     (case verify_outcome env (length (trace s)) of
        Inl f \<Rightarrow> (Inl (External f), s\<lparr>trace := trace s @ [VerifierVerify]\<rparr>)
      | Inr ks \<Rightarrow> k ks (s\<lparr>trace := trace s @ [VerifierVerify]\<rparr>))"
  by (simp add: await_def verifier_verify_def split: sum.split)

lemma await_sendIntroduction:
  "await (sendIntroduction env) k s =
     await (connection_send env (introduction (pairingId s)) True 0 (credentials s)) k s"
  by (simp add: await_def sendIntroduction_def sendMessage_def introduction_def)

lemma await_sendConnectionState:
  "await (sendConnectionState env) k s =
     await (connection_send env connectionState False 0 (credentials s)) k s"
  by (simp add: await_def sendConnectionState_def connectionState_def)

lemma await_sendClientUpdatesConfig:
  "await (sendClientUpdatesConfig env
       \<lparr>artworkUpdates = True, nowPlayingUpdates = True, volumeUpdates = False, keyboardUpdates = False\<rparr>) k s =
     await (connection_send env clientUpdatesConfig False 0 (credentials s)) k s"
  by (simp add: await_def sendClientUpdatesConfig_def sendMessage_def clientUpdatesConfig_def)

lemma keys_step:
  "credentials s = Some c \<Longrightarrow>
   await (install_keys ks) (\<lambda>_. await emit_debug_keys k) s =
     k () (emit (debug_keys ks) (s\<lparr>heap := (heap s)(c := with_keys ks (heap s c))\<rparr>))"
  by (simp add: await_def install_keys_def emit_debug_keys_def debug_keys_def with_keys_def)

lemmas open_steps = await_resolved await_assoc await_connection_open await_sendIntroduction
  await_sendConnectionState await_sendClientUpdatesConfig await_connection_send
  await_verifier_verify keys_step

subsection \<open>The handshake, step by step\<close>

lemma openConnection_None:
  "openConnection env None s =
     (case open_outcome env (length (trace s)) of
        Some f \<Rightarrow> (Inl (External f), s\<lparr>trace := trace s @ [ConnOpen]\<rparr>)
      | None \<Rightarrow>
         (case send_outcome env (Suc (length (trace s))) (introduction (pairingId s)) of
            Inl f \<Rightarrow> (Inl (External f),
                       s\<lparr>isOpen := True,
                         trace := trace s @ [ConnOpen, ConnSend (introduction (pairingId s)) True 0
                                    (map_option (\<lambda>c. (c, heap s c)) (credentials s))]\<rparr>)
          | Inr r \<Rightarrow> (Inr (),
                       s\<lparr>isOpen := True, credentials := None,
                         trace := trace s @ [ConnOpen, ConnSend (introduction (pairingId s)) True 0
                                    (map_option (\<lambda>c. (c, heap s c)) (credentials s))]\<rparr>)))"
  by (simp add: openConnection_def open_steps resolved_def split: option.split sum.split)

lemma openConnection_Some:
  "openConnection env (Some c) s =
     (let n = length (trace s);
          s1 = s\<lparr>pairingId := c_pairingId (heap s c)\<rparr>;
          e2 = ConnSend (introduction (c_pairingId (heap s c))) True 0
                 (map_option (\<lambda>c. (c, heap s c)) (credentials s))
      in case open_outcome env n of
           Some f \<Rightarrow> (Inl (External f), s1\<lparr>trace := trace s @ [ConnOpen]\<rparr>)
         | None \<Rightarrow>
            (case send_outcome env (Suc n) (introduction (c_pairingId (heap s c))) of
               Inl f \<Rightarrow> (Inl (External f), s1\<lparr>isOpen := True, trace := trace s @ [ConnOpen, e2]\<rparr>)
             | Inr r \<Rightarrow>
                (case verify_outcome env (Suc (Suc n)) of
                   Inl f \<Rightarrow> (Inl (External f),
                              s1\<lparr>isOpen := True, credentials := Some c,
                                 trace := trace s @ [ConnOpen, e2, VerifierVerify]\<rparr>)
                 | Inr ks \<Rightarrow>
                    (let e4 = ConnSend connectionState False 0 (Some (c, with_keys ks (heap s c)));
                         e5 = ConnSend clientUpdatesConfig False 0 (Some (c, with_keys ks (heap s c)));
                         s4 = emit (debug_keys ks)
                                (s1\<lparr>isOpen := True, credentials := Some c,
                                    trace := trace s @ [ConnOpen, e2, VerifierVerify],
                                    heap := (heap s)(c := with_keys ks (heap s c))\<rparr>)
                     in case send_outcome env (Suc (Suc (Suc n))) connectionState of
                          Inl f \<Rightarrow> (Inl (External f),
                                     s4\<lparr>trace := trace s @ [ConnOpen, e2, VerifierVerify, e4]\<rparr>)
                        | Inr r4 \<Rightarrow>
                           (case send_outcome env (Suc (Suc (Suc (Suc n)))) clientUpdatesConfig of
                              Inl f \<Rightarrow> (Inl (External f),
                                         s4\<lparr>trace := trace s @ [ConnOpen, e2, VerifierVerify, e4, e5]\<rparr>)
                            | Inr r5 \<Rightarrow> (Inr (),
                                         s4\<lparr>trace := trace s @ [ConnOpen, e2, VerifierVerify, e4, e5]\<rparr>))))))"
  by (simp add: openConnection_def open_steps resolved_def Let_def split: option.split sum.split)

subsection \<open>Requests and keys, step by step\<close>

lemma requestPlaybackQueueWithWait_sized:
  "requestPlaybackQueueWithWait env
     \<lparr>location = loc, length_opt = len, includeMetadata = None, includeLanguageOptions = None,
      includeLyrics = None, artworkSize = Some \<lparr>width = w, height = h\<rparr>\<rparr> wait s =
   connection_send env (playbackQueueRequest (uuid env (uuids s)) loc len w h) wait 0 (credentials s)
     (s\<lparr>uuids := Suc (uuids s)\<rparr>)"
  by (simp add: requestPlaybackQueueWithWait_def sendMessage_def playbackQueueRequest_def Let_def)

lemma artwork_of_Some:
  "artwork_of response = Some data \<longleftrightarrow>
     (\<exists>m p q item items. response = Some m \<and> payload m = Some p \<and> playbackQueue p = Some q \<and>
        contentItems q = Some (item # items) \<and> artworkData item = Some data)"
proof (cases response)
  case None
  then show ?thesis by (simp add: artwork_of_def)
next
  case (Some m)
  show ?thesis
  proof (cases "payload m")
    case None
    then show ?thesis using Some by (simp add: artwork_of_def)
  next
    case p: (Some p)
    show ?thesis
    proof (cases "playbackQueue p")
      case None
      then show ?thesis using Some p by (simp add: artwork_of_def)
    next
      case q: (Some q)
      show ?thesis
      proof (cases "contentItems q")
        case None
        then show ?thesis using Some p q by (simp add: artwork_of_def)
      next
        case items: (Some items)
        then show ?thesis using Some p q
          by (cases items) (simp_all add: artwork_of_def first_item_def)
      qed
    qed
  qed
qed

lemma requestArtwork_run:
  "requestArtwork env w h s =
     (let request = playbackQueueRequest (uuid env (uuids s)) 0 1
                      (case w of None \<Rightarrow> 400 | Some x \<Rightarrow> x) (case h of None \<Rightarrow> 400 | Some y \<Rightarrow> y)
      in (case send_outcome env (length (trace s)) request of
            Inl f \<Rightarrow> Inl (External f)
          | Inr response \<Rightarrow>
              (case artwork_of response of Some data \<Rightarrow> Inr data | None \<Rightarrow> Inl NoArtworkAvailable),
          s\<lparr>uuids := Suc (uuids s),
            trace := trace s @ [ConnSend request True 0 (map_option (\<lambda>c. (c, heap s c)) (credentials s))]\<rparr>))"
  by (simp add: requestArtwork_def Let_def await_def requestPlaybackQueueWithWait_sized
      connection_send_def resolved_def rejected_def split: sum.split option.split)

lemma await_sendKeyPress:
  "await (sendKeyPress env page code down) k s =
     await (connection_send env (hidEvent env (page, code) down) False 0 (credentials s)) (\<lambda>_. k ()) s"
  by (simp add: await_def sendKeyPress_def sendMessage_def hidEvent_def resolved_def
      split: prod.split sum.split)

lemma sendKeyPress_run:
  "sendKeyPress env page code down s =
     (case send_outcome env (length (trace s)) (hidEvent env (page, code) down) of
        Inl f \<Rightarrow> Inl (External f) | Inr r \<Rightarrow> Inr (),
      s\<lparr>trace := trace s @ [ConnSend (hidEvent env (page, code) down) False 0
                                (map_option (\<lambda>c. (c, heap s c)) (credentials s))]\<rparr>)"
  by (simp add: sendKeyPress_def await_def sendMessage_def connection_send_def hidEvent_def
      resolved_def split: sum.split)

lemma sendKeyPressAndRelease_run:
  "sendKeyPressAndRelease env page code s =
     (let press = hidEvent env (page, code) True;
          release = hidEvent env (page, code) False;
          c = map_option (\<lambda>c. (c, heap s c)) (credentials s)
      in case send_outcome env (length (trace s)) press of
           Inl f \<Rightarrow> (Inl (External f), s\<lparr>trace := trace s @ [ConnSend press False 0 c]\<rparr>)
         | Inr r \<Rightarrow>
             (case send_outcome env (Suc (length (trace s))) release of
                Inl f \<Rightarrow> Inl (External f)
              | Inr r' \<Rightarrow> Inr (),
              s\<lparr>trace := trace s @ [ConnSend press False 0 c, ConnSend release False 0 c]\<rparr>))"
  by (simp add: sendKeyPressAndRelease_def await_sendKeyPress await_connection_send
      sendKeyPress_run Let_def split: sum.split)

lemma queuePoll_run:
  "queuePoll env s =
     (Inr (),
      if isOpen s
      then s\<lparr>uuids := Suc (uuids s),
             trace := trace s @ [ConnSend (playbackQueueRequest (uuid env (uuids s)) 0 100 (- 1) 368) False 0
                                   (map_option (\<lambda>c. (c, heap s c)) (credentials s))]\<rparr>
      else s)"
  by (simp add: queuePoll_def requestPlaybackQueueWithWait_sized connection_send_def
      then_p_def catch_p_def split: sum.split)

lemma sent_ticks:
  "length (sent (trace (ticks env opens s))) = length (sent (trace s)) + length (filter (\<lambda>b. b) opens)"
  by (induction opens arbitrary: s) (simp_all add: queuePoll_run sent_append)

subsection \<open>What a run keeps\<close>

lemma wf_core: "core s' = core s \<Longrightarrow> wf s' = wf s"
  by (simp add: core_def wf_def timers_ok_def refs_ok_def polling_ok_def polling_tasks_def)

subsection \<open>Lists\<close>

lemma remove_last_absent: "x \<notin> set xs \<Longrightarrow> remove_last x xs = xs"
  by (simp add: remove_last_def remove1_idem)

lemma remove_last_append:
  "x \<in> set xs \<Longrightarrow> remove_last x (ys @ xs) = ys @ remove_last x xs"
  by (simp add: remove_last_def remove1_append)

lemma set_remove_last: "set (remove_last x xs) \<subseteq> set xs"
  using set_remove1_subset [of x "rev xs"] by (simp add: remove_last_def)

lemma in_remove_last: "y \<noteq> x \<Longrightarrow> y \<in> set (remove_last x xs) \<longleftrightarrow> y \<in> set xs"
  by (simp add: remove_last_def)

lemma filter_remove1:
  "filter P (remove1 x xs) = (if P x then remove1 x (filter P xs) else filter P xs)"
  by (induction xs) auto

lemma filter_remove_last:
  "filter P (remove_last x xs) = (if P x then remove_last x (filter P xs) else filter P xs)"
  by (simp add: remove_last_def filter_remove1 rev_filter [symmetric])

lemma length_remove_last:
  "length (remove_last x xs) = (if x \<in> set xs then length xs - 1 else length xs)"
  by (simp add: remove_last_def length_remove1)

lemma filter_swap: "filter P (filter Q xs) = filter Q (filter P xs)"
  by (induction xs) auto

lemma filter_filter_other:
  "\<forall>r \<in> set xs. \<not> Q r \<longrightarrow> \<not> P r \<Longrightarrow> filter P (filter Q xs) = filter P xs"
  by (induction xs) auto

lemma map_of_unique:
  "distinct (map fst xs) \<Longrightarrow> map_of xs t = Some v \<Longrightarrow> r \<in> set xs \<Longrightarrow> fst r = t \<Longrightarrow> snd r = v"
  by (cases r) (auto dest: map_of_SomeD eq_key_imp_eq_value)

lemma fst_again [simp]: "fst (if fst x = t then (t, y) else x) = fst x"
  by simp

lemma at_most_remove_last: "at_most x xs \<Longrightarrow> at_most x (remove_last y xs)"
  by (auto simp: at_most_def remove_last_def split: if_splits)

lemma at_most_filter: "at_most x xs \<Longrightarrow> at_most x (filter Q xs)"
  by (auto simp: at_most_def)

lemma at_most_in: "at_most x xs \<Longrightarrow> y \<in> set xs \<Longrightarrow> y = x"
  by (auto simp: at_most_def)

lemma at_most_gone: "at_most x xs \<Longrightarrow> x \<notin> set (remove_last x xs)"
  by (auto simp: at_most_def remove_last_def)

subsection \<open>The two hooks, one step\<close>

lemma watched_event_message [simp]: "\<not> watched_event ''message''"
  by (simp add: watched_event_def)

lemma onNewListener_run:
  "onNewListener ev s =
     (if queuePollTimer s = None \<and> watched_event ev
      then s\<lparr>timers := timers s @ [(next_timer s, \<lparr>due = clock s + 5000, period = Some 5000, callback = QueuePoll\<rparr>)],
             next_timer := Suc (next_timer s), queuePollTimer := Some (next_timer s)\<rparr>
      else s)"
  by (simp add: onNewListener_def setInterval_def timer_delay_def watched_event_def)

lemma onRemoveListener_run:
  "onRemoveListener ev s =
     (case queuePollTimer s of
        None \<Rightarrow> s
      | Some t \<Rightarrow>
          if watched_event ev \<and> watched s = 0
          then s\<lparr>timers := filter (\<lambda>r. fst r \<noteq> t) (timers s), queuePollTimer := None\<rparr>
          else s)"
  by (simp add: onRemoveListener_def clearInterval_def watched_event_def watched_def Let_def
      split: option.split)

lemma events_onNewListener [simp]: "events (onNewListener ev s) = events s"
  by (simp add: onNewListener_run)

lemma events_onRemoveListener [simp]: "events (onRemoveListener ev s) = events s"
  by (simp add: onRemoveListener_run split: option.split)

lemma promises_onNewListener [simp]: "promises (onNewListener ev s) = promises s"
  by (simp add: onNewListener_run)

lemma promises_onRemoveListener [simp]: "promises (onRemoveListener ev s) = promises s"
  by (simp add: onRemoveListener_run split: option.split)

lemma events_call_hook [simp]: "events (call_hook x h ev s) = events s"
  by (cases h) simp_all

lemma promises_call_hook [simp]: "promises (call_hook x h ev s) = promises s"
  by (cases h) simp_all

lemma events_fold_call_hook [simp]: "events (fold (\<lambda>h. call_hook x h ev) hs s) = events s"
  by (induction hs arbitrary: s) simp_all

lemma promises_fold_call_hook [simp]: "promises (fold (\<lambda>h. call_hook x h ev) hs s) = promises s"
  by (induction hs arbitrary: s) simp_all

lemma events_on: "events (on ev l s) = events s @ [(ev, l)]"
  by (simp add: on_def Let_def)

lemma events_removeListener: "events (removeListener ev l s) = remove_last (ev, l) (events s)"
  by (simp add: removeListener_def Let_def remove_last_absent)

lemma promises_removeListener [simp]: "promises (removeListener ev l s) = promises s"
  by (simp add: removeListener_def Let_def)

lemma call_hook_message [simp]: "call_hook x h ''message'' s = s"
  by (cases h) (simp_all add: onNewListener_run onRemoveListener_run split: option.split)

lemma fold_call_hook_message [simp]: "fold (\<lambda>h. call_hook x h ''message'') hs s = s"
  by (induction hs) simp_all

lemma on_message: "on ''message'' l s = s\<lparr>events := events s @ [(''message'', l)]\<rparr>"
  by (simp add: on_def Let_def)

lemma removeListener_message:
  "removeListener ''message'' l s = s\<lparr>events := remove_last (''message'', l) (events s)\<rparr>"
  by (simp add: removeListener_def Let_def remove_last_absent)

lemma polling_tasks_filter:
  "polling_tasks (s\<lparr>timers := filter (\<lambda>r. fst r \<noteq> t) (timers s)\<rparr>) = filter (\<lambda>i. i \<noteq> t) (polling_tasks s)"
  by (simp add: polling_tasks_def filter_map comp_def conj_commute)

subsection \<open>The invariant is kept\<close>

lemma wf_onNewListener: "wf s \<Longrightarrow> wf (onNewListener ev s)"
  by (auto simp: onNewListener_run wf_def timers_ok_def refs_ok_def polling_ok_def polling_tasks_def)

lemma timers_ok_filter:
  "timers_ok s \<Longrightarrow> timers_ok (s\<lparr>timers := filter P (timers s)\<rparr>)"
  by (simp add: timers_ok_def distinct_map_filter)

lemma timers_ok_onRemoveListener: "timers_ok s \<Longrightarrow> timers_ok (onRemoveListener ev s)"
  using timers_ok_filter [of s]
  by (auto simp: onRemoveListener_run timers_ok_def distinct_map_filter split: option.split)

lemma refs_ok_onRemoveListener: "refs_ok s \<Longrightarrow> refs_ok (onRemoveListener ev s)"
  by (auto simp: onRemoveListener_run refs_ok_def split: option.split)

lemma polling_ok_onRemoveListener:
  assumes "polling_ok s"
  shows "polling_ok (onRemoveListener ev s)"
proof (cases "queuePollTimer s")
  case None
  then show ?thesis using assms by (simp add: onRemoveListener_run)
next
  case (Some t)
  have "polling_tasks (s\<lparr>timers := filter (\<lambda>r. fst r \<noteq> t) (timers s), queuePollTimer := None\<rparr>) =
      filter (\<lambda>i. i \<noteq> t) (polling_tasks s)"
    using polling_tasks_filter [of t s] by (simp add: polling_tasks_def)
  then show ?thesis using Some assms
    by (simp add: onRemoveListener_run polling_ok_def)
qed

lemma wf_onRemoveListener: "wf s \<Longrightarrow> wf (onRemoveListener ev s)"
  by (simp add: wf_def timers_ok_onRemoveListener refs_ok_onRemoveListener
      polling_ok_onRemoveListener)

lemma wf_call_hook: "wf s \<Longrightarrow> wf (call_hook x h ev s)"
  by (cases h) (simp_all add: wf_onNewListener wf_onRemoveListener)

lemma wf_fold:
  assumes "\<And>x s. wf s \<Longrightarrow> wf (f x s)"
  shows "wf s \<Longrightarrow> wf (fold f xs s)"
  by (induction xs arbitrary: s) (simp_all add: assms)

lemma wf_events:
  assumes "wf s" "set es \<subseteq> set (events s)"
  shows "wf (s\<lparr>events := es\<rparr>)"
proof -
  have "refs_ok (s\<lparr>events := es\<rparr>)"
    using assms unfolding wf_def refs_ok_def by auto
  then show ?thesis using assms(1) by (simp add: wf_def timers_ok_def polling_ok_def polling_tasks_def)
qed

lemma wf_append:
  assumes "wf s" "\<forall>q ty. l = MessageOfTypeListener q ty \<longrightarrow> q < length (promises s)"
  shows "wf (s\<lparr>events := events s @ [(ev, l)]\<rparr>)"
proof -
  have "refs_ok (s\<lparr>events := events s @ [(ev, l)]\<rparr>)"
    using assms unfolding wf_def refs_ok_def by auto
  then show ?thesis using assms(1) by (simp add: wf_def timers_ok_def polling_ok_def polling_tasks_def)
qed

lemma wf_on:
  assumes "wf s" "\<forall>q ty. l = MessageOfTypeListener q ty \<longrightarrow> q < length (promises s)"
  shows "wf (on ev l s)"
proof -
  define s' where "s' = fold (\<lambda>h. call_hook ''newListener'' h ev) (listeners_of ''newListener'' s) s"
  have "wf s'" unfolding s'_def using assms(1) by (rule wf_fold [rotated]) (rule wf_call_hook)
  moreover have "promises s' = promises s" by (simp add: s'_def)
  ultimately have "wf (s'\<lparr>events := events s' @ [(ev, l)]\<rparr>)"
    using assms(2) by (intro wf_append) simp_all
  then show ?thesis by (simp add: on_def Let_def s'_def)
qed

lemma wf_removeListener:
  assumes "wf s"
  shows "wf (removeListener ev l s)"
proof -
  define s' where "s' = s\<lparr>events := remove_last (ev, l) (events s)\<rparr>"
  have "wf s'" unfolding s'_def using assms by (rule wf_events) (rule set_remove_last)
  then have "wf (fold (\<lambda>h. call_hook ''removeListener'' h ev) (listeners_of ''removeListener'' s') s')"
    by (rule wf_fold [rotated]) (rule wf_call_hook)
  then show ?thesis using assms by (simp add: removeListener_def Let_def s'_def)
qed

lemma wf_removeAllListeners_of: "wf s \<Longrightarrow> wf (removeAllListeners_of ev s)"
proof -
  assume w: "wf s"
  have "wf (s\<lparr>events := filter (\<lambda>r. fst r \<noteq> ev) (events s)\<rparr>)"
    using w by (rule wf_events) simp
  moreover have "wf (fold (\<lambda>l. removeListener ev l) (rev (listeners_of ev s)) s)"
    using w by (rule wf_fold [rotated]) (rule wf_removeListener)
  ultimately show ?thesis by (simp add: removeAllListeners_of_def)
qed

lemma wf_removeAllListeners: "wf s \<Longrightarrow> wf (removeAllListeners s)"
proof -
  assume w: "wf s"
  define s' where "s' = fold removeAllListeners_of
      (filter (\<lambda>k. k \<noteq> ''removeListener'') (event_names s)) s"
  have "wf s'" unfolding s'_def using w by (rule wf_fold [rotated]) (rule wf_removeAllListeners_of)
  then have "wf (removeAllListeners_of ''removeListener'' s')" by (rule wf_removeAllListeners_of)
  then have "wf ((removeAllListeners_of ''removeListener'' s')\<lparr>events := []\<rparr>)"
    by (rule wf_events) simp
  moreover have "wf (s\<lparr>events := []\<rparr>)" using w by (rule wf_events) simp
  ultimately show ?thesis by (simp add: removeAllListeners_def Let_def s'_def)
qed

lemma wf_promises:
  "length ps = length (promises s) \<Longrightarrow> wf (s\<lparr>promises := ps\<rparr>) = wf s"
  by (simp add: wf_def timers_ok_def refs_ok_def polling_ok_def polling_tasks_def)

lemma wf_resolve: "wf (resolve p m s) = wf s"
  by (simp add: resolve_def wf_promises)

lemma wf_reject: "wf (reject p e s) = wf s"
  by (simp add: reject_def wf_promises)

lemma wf_call_listener: "wf s \<Longrightarrow> wf (call_listener l em s)"
proof (cases l)
  case (MessageOfTypeListener p ty)
  assume "wf s"
  then show ?thesis using MessageOfTypeListener
    by (cases em) (simp_all add: wf_removeListener wf_resolve)
qed simp_all

lemma wf_emit: "wf s \<Longrightarrow> wf (emit em s)"
proof -
  assume "wf s"
  then have "wf (s\<lparr>emitted := emitted s @ [em]\<rparr>)"
    by (simp add: wf_core [of "s\<lparr>emitted := emitted s @ [em]\<rparr>" s] core_def)
  then show ?thesis
    unfolding emit_def Let_def by (rule wf_fold [rotated]) (rule wf_call_listener)
qed

lemma wf_onReceiveMessage: "wf s \<Longrightarrow> wf (onReceiveMessage m s)"
  by (simp add: onReceiveMessage_def Let_def wf_emit split: option.split)

lemma wf_messageOfType: "wf s \<Longrightarrow> wf (snd (messageOfType ty timeout s))"
proof -
  assume w: "wf s"
  define ms where "ms = (case timeout of None \<Rightarrow> 5 | Some t \<Rightarrow> t) * 1000"
  define s2 where "s2 = snd (setTimeout (MessageTimeout (length (promises s)) ty) ms
                               (s\<lparr>promises := promises s @ [Pending]\<rparr>))"
  have "wf s2"
    using w
    by (auto simp: s2_def setTimeout_def wf_def timers_ok_def refs_ok_def polling_ok_def
        polling_tasks_def)
  moreover have "length (promises s) < length (promises s2)"
    by (simp add: s2_def setTimeout_def)
  ultimately have "wf (on ''message'' (MessageOfTypeListener (length (promises s)) ty) s2)"
    by (intro wf_on) simp_all
  then show ?thesis by (simp add: messageOfType_def Let_def s2_def ms_def)
qed

lemma wf_advance: "wf (advance d s) = wf s"
  by (rule wf_core) (simp add: advance_def core_def)

lemma core_queuePoll: "core (snd (queuePoll env s)) = core s"
  by (simp add: queuePoll_run core_def)

lemma wf_run_callback: "wf s \<Longrightarrow> wf (run_callback env cb s)"
proof (cases cb)
  case (MessageTimeout p ty)
  assume "wf s"
  then show ?thesis using MessageTimeout by (simp add: wf_removeListener wf_reject)
next
  case QueuePoll
  assume "wf s"
  then show ?thesis using QueuePoll by (simp add: wf_core [OF core_queuePoll])
qed

lemma wf_timeout_gone:
  assumes "wf s" "map_of (timers s) t = Some tm" "period tm = None"
  shows "wf (s\<lparr>timers := filter (\<lambda>r. fst r \<noteq> t) (timers s)\<rparr>)"
proof -
  have d: "distinct (map fst (timers s))" using assms(1) by (simp add: wf_def timers_ok_def)
  have "\<forall>r \<in> set (timers s). \<not> fst r \<noteq> t \<longrightarrow> \<not> callback (snd r) = QueuePoll"
  proof (intro ballI impI)
    fix r assume r: "r \<in> set (timers s)" "\<not> fst r \<noteq> t"
    then have "snd r = tm" using map_of_unique [OF d assms(2)] by simp
    moreover have "(callback (snd r) = QueuePoll) = (period (snd r) \<noteq> None)"
      using assms(1) r(1) by (simp add: wf_def timers_ok_def)
    ultimately show "\<not> callback (snd r) = QueuePoll" using assms(3) by simp
  qed
  then have "filter (\<lambda>r. callback (snd r) = QueuePoll) (filter (\<lambda>r. fst r \<noteq> t) (timers s)) =
      filter (\<lambda>r. callback (snd r) = QueuePoll) (timers s)"
    by (rule filter_filter_other)
  moreover have "timers (s\<lparr>timers := filter (\<lambda>r. fst r \<noteq> t) (timers s)\<rparr>) =
      filter (\<lambda>r. fst r \<noteq> t) (timers s)"
    by simp
  ultimately have "polling_tasks (s\<lparr>timers := filter (\<lambda>r. fst r \<noteq> t) (timers s)\<rparr>) = polling_tasks s"
    by (simp only: polling_tasks_def)
  then show ?thesis using assms(1)
    by (auto simp: wf_def timers_ok_def refs_ok_def polling_ok_def distinct_map_filter)
qed

lemma wf_interval_again:
  assumes "wf s"
  shows "wf (s\<lparr>timers := map (\<lambda>r. if fst r = t then (t, (snd r)\<lparr>due := due (snd r) + ms\<rparr>) else r) (timers s)\<rparr>)"
proof -
  let ?f = "\<lambda>r. if fst r = t then (t, (snd r)\<lparr>due := due (snd r) + ms\<rparr>) else r"
  have f: "fst (?f r) = fst r" "callback (snd (?f r)) = callback (snd r)"
    "period (snd (?f r)) = period (snd r)" for r :: "nat \<times> timer"
    by simp_all
  have m: "map fst (map ?f (timers s)) = map fst (timers s)"
    by (simp add: comp_def)
  have p: "filter (\<lambda>r. callback (snd r) = QueuePoll) (map ?f (timers s)) =
           map ?f (filter (\<lambda>r. callback (snd r) = QueuePoll) (timers s))"
    by (simp add: filter_map comp_def)
  have "polling_tasks (s\<lparr>timers := map ?f (timers s)\<rparr>) = polling_tasks s"
    by (simp add: polling_tasks_def p comp_def)
  moreover have "timers_ok (s\<lparr>timers := map ?f (timers s)\<rparr>)"
    using assms unfolding wf_def timers_ok_def
    by (simp add: m) (auto simp: comp_def)
  moreover have "refs_ok (s\<lparr>timers := map ?f (timers s)\<rparr>)"
    using assms unfolding wf_def refs_ok_def by auto
  ultimately show ?thesis using assms
    by (simp add: wf_def polling_ok_def)
qed

lemma wf_fire: "wf s \<Longrightarrow> wf (fire env t s)"
proof -
  assume w: "wf s"
  show ?thesis
  proof (cases "map_of (timers s) t")
    case None
    then show ?thesis using w by (simp add: fire_def)
  next
    case (Some tm)
    show ?thesis
    proof (cases "due tm \<le> clock s")
      case False
      then show ?thesis using w Some by (simp add: fire_def)
    next
      case True
      show ?thesis
      proof (cases "period tm")
        case None
        then show ?thesis using w Some True
          by (simp add: fire_def wf_run_callback wf_timeout_gone)
      next
        case (Some ms)
        then show ?thesis using w \<open>map_of (timers s) t = Some tm\<close> True
          by (simp add: fire_def wf_run_callback wf_interval_again)
      qed
    qed
  qed
qed

lemma emit_debug [simp]: "emit (EmDebug d) s = s\<lparr>emitted := emitted s @ [EmDebug d]\<rparr>"
proof -
  have "fold (\<lambda>l. call_listener l (EmDebug d)) ls s' = s'" for ls s'
    by (induction ls) simp_all
  then show ?thesis by (simp add: emit_def Let_def)
qed

lemma core_openConnection: "core (snd (openConnection env creds s)) = core s"
proof (cases creds)
  case None
  then show ?thesis
    by (simp add: openConnection_None core_def split: option.split sum.split)
next
  case (Some c)
  then show ?thesis
    by (simp add: openConnection_Some Let_def debug_keys_def core_def split: option.split sum.split)
qed

lemma core_requestPlaybackQueue: "core (snd (requestPlaybackQueue env options s)) = core s"
  by (simp add: requestPlaybackQueue_def requestPlaybackQueueWithWait_def sendMessage_def
      connection_send_def Let_def core_def)

lemma core_requestArtwork: "core (snd (requestArtwork env w h s)) = core s"
  by (simp add: requestArtwork_run Let_def core_def)

lemma core_sendKeyCommand: "core (snd (sendKeyCommand env k s)) = core s"
  by (cases k) (simp_all add: sendKeyPressAndRelease_run Let_def core_def split: sum.split)

lemma core_closeConnection: "core (closeConnection s) = core s"
  by (simp add: closeConnection_def connection_close_def core_def)

lemma wf_act: "wf s \<Longrightarrow> wf (act env a s)"
proof (cases a)
  case (On ev n)
  assume "wf s" then show ?thesis using On by (simp add: wf_on)
next
  case (Off ev l)
  assume "wf s" then show ?thesis using Off by (simp add: wf_removeListener)
next
  case (RemoveAllListeners e)
  assume "wf s" then show ?thesis using RemoveAllListeners
    by (cases e) (simp_all add: wf_removeAllListeners wf_removeAllListeners_of)
next
  case (Receive m)
  assume "wf s" then show ?thesis using Receive by (simp add: wf_onReceiveMessage)
next
  case (Advance d)
  assume "wf s" then show ?thesis using Advance by (simp add: wf_advance)
next
  case (Fire t)
  assume "wf s" then show ?thesis using Fire by (simp add: wf_fire)
next
  case (MessageOfType ty timeout)
  assume "wf s" then show ?thesis using MessageOfType by (simp add: wf_messageOfType)
next
  case (OpenConnection creds)
  assume "wf s" then show ?thesis using OpenConnection by (simp add: wf_core [OF core_openConnection])
next
  case CloseConnection
  assume "wf s" then show ?thesis using CloseConnection by (simp add: wf_core [OF core_closeConnection])
next
  case (RequestPlaybackQueue options)
  assume "wf s" then show ?thesis using RequestPlaybackQueue
    by (simp add: wf_core [OF core_requestPlaybackQueue])
next
  case (RequestArtwork w h)
  assume "wf s" then show ?thesis using RequestArtwork by (simp add: wf_core [OF core_requestArtwork])
next
  case (SendKeyCommand k)
  assume "wf s" then show ?thesis using SendKeyCommand by (simp add: wf_core [OF core_sendKeyCommand])
qed

lemma new_AppleTV_eq:
  "new_AppleTV env h =
     \<lparr>pairingId = uuid env 0, credentials = None, queuePollTimer = None, isOpen = False,
      events = hooks, heap = h, timers = [], next_timer = 0, clock = 0, promises = [],
      uuids = 1, trace = [], emitted = []\<rparr>"
  by (simp add: new_AppleTV_def setupListeners_def on_def listeners_of_def Let_def
      onNewListener_def hooks_def)

lemma wf_new_AppleTV: "wf (new_AppleTV env h)"
  by (simp add: new_AppleTV_eq wf_def timers_ok_def refs_ok_def polling_ok_def
      polling_tasks_def hooks_def)

lemma wf_run: "wf s \<Longrightarrow> wf (run env acts s)"
  unfolding run_def by (induction acts arbitrary: s) (simp_all add: wf_act)

subsection \<open>While the hooks are in place\<close>

lemma call_hook_other: "\<not> is_hook l \<Longrightarrow> call_hook x l ev s = s"
  by (cases l) simp_all

lemma fold_call_hook_others:
  "\<forall>l \<in> set ls. \<not> is_hook l \<Longrightarrow> fold (\<lambda>l. call_hook x l ev) ls s = s"
  by (induction ls arbitrary: s) (simp_all add: call_hook_other)

lemma listeners_of_hooked:
  assumes "hooked s"
  shows "\<exists>us. listeners_of ''newListener'' s = OnNewListenerHook # us \<and> (\<forall>l \<in> set us. \<not> is_hook l)"
    and "\<exists>us. listeners_of ''removeListener'' s = OnRemoveListenerHook # us \<and> (\<forall>l \<in> set us. \<not> is_hook l)"
proof -
  from assms obtain rest where r: "events s = hooks @ rest" "\<forall>r \<in> set rest. \<not> is_hook (snd r)"
    by (auto simp: hooked_def)
  show "\<exists>us. listeners_of ''newListener'' s = OnNewListenerHook # us \<and> (\<forall>l \<in> set us. \<not> is_hook l)"
    using r by (auto simp: listeners_of_def hooks_def)
  show "\<exists>us. listeners_of ''removeListener'' s = OnRemoveListenerHook # us \<and> (\<forall>l \<in> set us. \<not> is_hook l)"
    using r by (auto simp: listeners_of_def hooks_def)
qed

lemma on_hooked:
  assumes "hooked s"
  shows "on ev l s = (onNewListener ev s)\<lparr>events := events s @ [(ev, l)]\<rparr>"
proof -
  from listeners_of_hooked(1) [OF assms] obtain us where
    "listeners_of ''newListener'' s = OnNewListenerHook # us" "\<forall>l \<in> set us. \<not> is_hook l"
    by blast
  then show ?thesis by (simp add: on_def Let_def fold_call_hook_others)
qed

lemma hooked_remove_last:
  assumes "hooked s" "(ev, l) \<notin> set hooks"
  shows "hooked (s\<lparr>events := remove_last (ev, l) (events s)\<rparr>)"
proof -
  from assms obtain rest where r: "events s = hooks @ rest" "\<forall>r \<in> set rest. \<not> is_hook (snd r)"
    by (auto simp: hooked_def)
  show ?thesis
  proof (cases "(ev, l) \<in> set rest")
    case True
    then have "remove_last (ev, l) (events s) = hooks @ remove_last (ev, l) rest"
      by (simp add: r remove_last_append)
    moreover have "\<forall>r \<in> set (remove_last (ev, l) rest). \<not> is_hook (snd r)"
      using r(2) set_remove_last [of "(ev, l)" rest] by blast
    ultimately show ?thesis by (auto simp: hooked_def)
  next
    case False
    with assms(2) have "(ev, l) \<notin> set (events s)" by (simp add: r)
    then show ?thesis using assms(1) by (simp add: remove_last_absent hooked_def)
  qed
qed

lemma removeListener_hooked:
  assumes "hooked s" "(ev, l) \<notin> set hooks"
  shows "removeListener ev l s =
           (if (ev, l) \<in> set (events s)
            then onRemoveListener ev (s\<lparr>events := remove_last (ev, l) (events s)\<rparr>) else s)"
proof -
  from listeners_of_hooked(2) [OF hooked_remove_last [OF assms]] obtain us where
    "listeners_of ''removeListener'' (s\<lparr>events := remove_last (ev, l) (events s)\<rparr>) = OnRemoveListenerHook # us"
    "\<forall>l \<in> set us. \<not> is_hook l"
    by blast
  then show ?thesis by (simp add: removeListener_def Let_def fold_call_hook_others)
qed

lemma hooked_events: "events s' = events s \<Longrightarrow> hooked s' = hooked s"
  by (simp add: hooked_def)

lemma hooked_on: "hooked s \<Longrightarrow> \<not> is_hook l \<Longrightarrow> hooked (on ev l s)"
  by (auto simp: hooked_def events_on)

lemma hooked_removeListener: "hooked s \<Longrightarrow> (ev, l) \<notin> set hooks \<Longrightarrow> hooked (removeListener ev l s)"
  using hooked_remove_last [of s ev l]
  by (simp add: hooked_def events_removeListener)

lemma hooked_new_AppleTV: "hooked (new_AppleTV env h)"
  by (simp add: new_AppleTV_eq hooked_def)

lemma is_hook_user [simp]: "\<not> is_hook (UserListener n)"
  by simp

lemma not_hooks_user [simp]: "(ev, UserListener n) \<notin> set hooks"
  by (simp add: hooks_def)

lemma not_hooks_message [simp]: "(''message'', l) \<notin> set hooks"
  by (simp add: hooks_def)

subsection \<open>Counting listeners\<close>

lemma listenerCount_append:
  "listenerCount e (s\<lparr>events := events s @ [(ev, l)]\<rparr>) = listenerCount e s + (if ev = e then 1 else 0)"
  by (simp add: listenerCount_def listeners_of_def)

lemma listenerCount_remove_last:
  "listenerCount e (s\<lparr>events := remove_last (ev, l) (events s)\<rparr>) =
     (if (ev, l) \<in> set (events s) \<and> ev = e then listenerCount e s - 1 else listenerCount e s)"
  by (simp add: listenerCount_def listeners_of_def filter_remove_last length_remove_last)

lemma listenerCount_pos:
  "(ev, l) \<in> set (events s) \<Longrightarrow> 0 < listenerCount ev s"
  by (force simp: listenerCount_def listeners_of_def filter_empty_conv)

lemma watched_append:
  "watched (s\<lparr>events := events s @ [(ev, l)]\<rparr>) = watched s + (if watched_event ev then 1 else 0)"
  by (auto simp: watched_def listenerCount_append watched_event_def)

lemma watched_remove_last:
  "(ev, l) \<in> set (events s) \<Longrightarrow>
   watched (s\<lparr>events := remove_last (ev, l) (events s)\<rparr>) =
     watched s - (if watched_event ev then 1 else 0)"
  using listenerCount_pos [of ev l s]
  by (auto simp: watched_def listenerCount_remove_last watched_event_def)

lemma watched_pos: "(ev, l) \<in> set (events s) \<Longrightarrow> watched_event ev \<Longrightarrow> 0 < watched s"
  using listenerCount_pos [of ev l s] by (auto simp: watched_def watched_event_def)

lemma watched_events: "events s' = events s \<Longrightarrow> watched s' = watched s"
  by (simp add: watched_def listenerCount_def listeners_of_def)

subsection \<open>The poll follows the listeners\<close>

lemma tended_frame:
  "events s' = events s \<Longrightarrow> queuePollTimer s' = queuePollTimer s \<Longrightarrow> tended s' = tended s"
  by (simp add: tended_def follows_def hooked_def watched_def listenerCount_def listeners_of_def)

lemma tended_core: "core s' = core s \<Longrightarrow> tended s' = tended s"
  by (rule tended_frame) (simp_all add: core_def)

lemma watched_on:
  "watched (on ev l s) = watched s + (if watched_event ev then 1 else 0)"
  by (auto simp: events_on watched_def listenerCount_def listeners_of_def watched_event_def)

lemma follows_on:
  assumes "hooked s" "follows s"
  shows "follows (on ev l s)"
proof (cases "queuePollTimer s = None \<and> watched_event ev")
  case True
  then have "queuePollTimer (on ev l s) = Some (next_timer s)"
    by (simp add: on_hooked [OF assms(1)] onNewListener_run)
  then show ?thesis using True by (simp add: follows_def watched_on)
next
  case False
  have "queuePollTimer (on ev l s) = queuePollTimer s"
    using False by (simp add: on_hooked [OF assms(1)] onNewListener_run)
  then show ?thesis using False assms(2)
    by (auto simp: follows_def watched_on)
qed

lemma follows_removeListener:
  assumes "hooked s" "(ev, l) \<notin> set hooks" "follows s"
  shows "follows (removeListener ev l s)"
proof (cases "(ev, l) \<in> set (events s)")
  case False
  then show ?thesis using assms by (simp add: removeListener_hooked)
next
  case True
  define s' where "s' = s\<lparr>events := remove_last (ev, l) (events s)\<rparr>"
  have r: "removeListener ev l s = onRemoveListener ev s'"
    using True assms by (simp add: removeListener_hooked s'_def)
  have w: "watched s' = watched s - (if watched_event ev then 1 else 0)"
    unfolding s'_def by (rule watched_remove_last [OF True])
  have f: "queuePollTimer s' = queuePollTimer s"
    by (simp add: s'_def)
  show ?thesis
  proof (cases "queuePollTimer s")
    case None
    then have "watched s = 0" using assms(3) by (simp add: follows_def)
    then show ?thesis using None w f
      by (simp add: r onRemoveListener_run follows_def)
  next
    case (Some t)
    then have p: "0 < watched s" using assms(3) by (simp add: follows_def)
    show ?thesis
    proof (cases "watched_event ev \<and> watched s' = 0")
      case True
      have "watched (s'\<lparr>timers := filter (\<lambda>r. fst r \<noteq> t) (timers s'), queuePollTimer := None\<rparr>) = watched s'"
        by (rule watched_events) simp
      then show ?thesis using True Some f
        by (simp add: r onRemoveListener_run follows_def)
    next
      case False
      then have "0 < watched s'" using w p by (auto split: if_splits)
      then show ?thesis using False Some f
        by (auto simp: r onRemoveListener_run follows_def)
    qed
  qed
qed

lemma tended_on: "tended s \<Longrightarrow> \<not> is_hook l \<Longrightarrow> tended (on ev l s)"
  by (simp add: tended_def hooked_on follows_on)

lemma tended_removeListener: "tended s \<Longrightarrow> (ev, l) \<notin> set hooks \<Longrightarrow> tended (removeListener ev l s)"
  by (simp add: tended_def hooked_removeListener follows_removeListener)

lemma tended_fold:
  assumes "\<And>x s. x \<in> set xs \<Longrightarrow> tended s \<Longrightarrow> tended (f x s)"
  shows "tended s \<Longrightarrow> tended (fold f xs s)"
  using assms by (induction xs arbitrary: s) simp_all

lemma tended_removeAllListeners_of:
  assumes "tended s" "ev \<noteq> ''newListener''" "ev \<noteq> ''removeListener''"
  shows "tended (removeAllListeners_of ev s)"
proof -
  have "listeners_of ''removeListener'' s \<noteq> []"
    using listeners_of_hooked(2) [of s] assms(1) by (auto simp: tended_def)
  moreover have "tended (fold (\<lambda>l. removeListener ev l) (rev (listeners_of ev s)) s)"
    using assms(1)
    by (rule tended_fold [rotated]) (rule tended_removeListener, simp_all add: hooks_def assms(2,3))
  ultimately show ?thesis by (simp add: removeAllListeners_of_def)
qed

lemma tended_resolve: "tended (resolve p m s) = tended s"
  by (rule tended_frame) (simp_all add: resolve_def)

lemma tended_reject: "tended (reject p e s) = tended s"
  by (rule tended_frame) (simp_all add: reject_def)

lemma tended_call_listener: "tended s \<Longrightarrow> tended (call_listener l em s)"
proof (cases l)
  case (MessageOfTypeListener p ty)
  assume "tended s"
  then show ?thesis using MessageOfTypeListener
    by (cases em) (simp_all add: tended_removeListener tended_resolve)
qed simp_all

lemma tended_emit: "tended s \<Longrightarrow> tended (emit em s)"
proof -
  assume "tended s"
  then have "tended (s\<lparr>emitted := emitted s @ [em]\<rparr>)"
    by (simp add: tended_frame [of "s\<lparr>emitted := emitted s @ [em]\<rparr>" s])
  then show ?thesis
    unfolding emit_def Let_def by (rule tended_fold [rotated]) (rule tended_call_listener)
qed

lemma tended_onReceiveMessage: "tended s \<Longrightarrow> tended (onReceiveMessage m s)"
  by (simp add: onReceiveMessage_def Let_def tended_emit split: option.split)

lemma tended_messageOfType: "tended s \<Longrightarrow> tended (snd (messageOfType ty timeout s))"
proof -
  assume t: "tended s"
  define ms where "ms = (case timeout of None \<Rightarrow> 5 | Some t \<Rightarrow> t) * 1000"
  define s2 where "s2 = snd (setTimeout (MessageTimeout (length (promises s)) ty) ms
                               (s\<lparr>promises := promises s @ [Pending]\<rparr>))"
  have "tended s2 = tended s"
    by (rule tended_frame) (simp_all add: s2_def setTimeout_def)
  then have "tended (on ''message'' (MessageOfTypeListener (length (promises s)) ty) s2)"
    using t by (intro tended_on) simp_all
  then show ?thesis by (simp add: messageOfType_def Let_def s2_def ms_def)
qed

lemma tended_run_callback: "tended s \<Longrightarrow> tended (run_callback env cb s)"
proof (cases cb)
  case (MessageTimeout p ty)
  assume "tended s"
  then show ?thesis using MessageTimeout by (simp add: tended_removeListener tended_reject)
next
  case QueuePoll
  assume "tended s"
  then show ?thesis using QueuePoll by (simp add: tended_core [OF core_queuePoll])
qed

lemma tended_fire: "tended s \<Longrightarrow> tended (fire env t s)"
proof -
  assume w: "tended s"
  have "tended (run_callback env cb (s\<lparr>timers := ts\<rparr>))" for cb ts
    by (rule tended_run_callback) (simp add: w tended_frame [of "s\<lparr>timers := ts\<rparr>" s])
  then show ?thesis using w
    by (simp add: fire_def split: option.split)
qed

lemma tended_act: "tended s \<Longrightarrow> keeps_hooks a \<Longrightarrow> tended (act env a s)"
proof (cases a)
  case (On ev n)
  assume "tended s" then show ?thesis using On by (simp add: tended_on)
next
  case (Off ev l)
  assume "tended s" "keeps_hooks a" then show ?thesis using Off by (simp add: tended_removeListener)
next
  case (RemoveAllListeners e)
  assume "tended s" "keeps_hooks a" then show ?thesis using RemoveAllListeners
    by (cases e) (simp_all add: tended_removeAllListeners_of)
next
  case (Receive m)
  assume "tended s" then show ?thesis using Receive by (simp add: tended_onReceiveMessage)
next
  case (Advance d)
  assume "tended s" then show ?thesis using Advance
    by (simp add: advance_def tended_frame [of "s\<lparr>clock := clock s + d\<rparr>" s])
next
  case (Fire t)
  assume "tended s" then show ?thesis using Fire by (simp add: tended_fire)
next
  case (MessageOfType ty timeout)
  assume "tended s" then show ?thesis using MessageOfType by (simp add: tended_messageOfType)
next
  case (OpenConnection creds)
  assume "tended s" then show ?thesis using OpenConnection by (simp add: tended_core [OF core_openConnection])
next
  case CloseConnection
  assume "tended s" then show ?thesis using CloseConnection by (simp add: tended_core [OF core_closeConnection])
next
  case (RequestPlaybackQueue options)
  assume "tended s" then show ?thesis using RequestPlaybackQueue
    by (simp add: tended_core [OF core_requestPlaybackQueue])
next
  case (RequestArtwork w h)
  assume "tended s" then show ?thesis using RequestArtwork by (simp add: tended_core [OF core_requestArtwork])
next
  case (SendKeyCommand k)
  assume "tended s" then show ?thesis using SendKeyCommand by (simp add: tended_core [OF core_sendKeyCommand])
qed

lemma tended_new_AppleTV: "tended (new_AppleTV env h)"
  by (simp add: tended_def hooked_new_AppleTV follows_def)
    (simp add: new_AppleTV_eq watched_def listenerCount_def listeners_of_def hooks_def)

lemma tended_run:
  "tended s \<Longrightarrow> \<forall>a \<in> set acts. keeps_hooks a \<Longrightarrow> tended (run env acts s)"
  unfolding run_def by (induction acts arbitrary: s) (simp_all add: tended_act)

subsection \<open>A wait and its timeout\<close>

lemma waiting_core: "core s' = core s \<Longrightarrow> waiting p ty t d s' = waiting p ty t d s"
  by (simp add: core_def waiting_def)

lemma refs_ok_no_refers:
  assumes "refs_ok s"
  shows "filter (\<lambda>r. refers (length (promises s)) (snd r)) (events s) = []"
    and "filter (\<lambda>r. rejects (length (promises s)) (callback (snd r))) (timers s) = []"
proof -
  have "\<not> refers (length (promises s)) (snd r)" if "r \<in> set (events s)" for r
    using assms that by (cases "snd r") (auto simp: refs_ok_def)
  then show "filter (\<lambda>r. refers (length (promises s)) (snd r)) (events s) = []"
    by (simp add: filter_empty_conv)
  have "\<not> rejects (length (promises s)) (callback (snd r))" if "r \<in> set (timers s)" for r
    using assms that by (cases "callback (snd r)") (auto simp: refs_ok_def)
  then show "filter (\<lambda>r. rejects (length (promises s)) (callback (snd r))) (timers s) = []"
    by (simp add: filter_empty_conv)
qed

lemma messageOfType_run:
  "messageOfType ty timeout s =
     (length (promises s),
      s\<lparr>promises := promises s @ [Pending],
        timers := timers s @ [(next_timer s,
           \<lparr>due = clock s + timer_delay ((case timeout of None \<Rightarrow> 5 | Some x \<Rightarrow> x) * 1000),
            period = None, callback = MessageTimeout (length (promises s)) ty\<rparr>)],
        next_timer := Suc (next_timer s),
        events := events s @ [(''message'', MessageOfTypeListener (length (promises s)) ty)]\<rparr>)"
  by (simp add: messageOfType_def Let_def on_message setTimeout_def)

lemma waiting_messageOfType:
  assumes "wf s" "messageOfType ty timeout s = (p, s1)"
  shows "waiting p ty (next_timer s)
           (clock s + timer_delay ((case timeout of None \<Rightarrow> 5 | Some x \<Rightarrow> x) * 1000)) s1"
    and "(''message'', MessageOfTypeListener p ty) \<in> set (events s1)"
proof -
  have r: "refs_ok s" using assms(1) by (simp add: wf_def)
  from assms(2) have p: "p = length (promises s)"
    and s1: "s1 = s\<lparr>promises := promises s @ [Pending],
        timers := timers s @ [(next_timer s,
           \<lparr>due = clock s + timer_delay ((case timeout of None \<Rightarrow> 5 | Some x \<Rightarrow> x) * 1000),
            period = None, callback = MessageTimeout (length (promises s)) ty\<rparr>)],
        next_timer := Suc (next_timer s),
        events := events s @ [(''message'', MessageOfTypeListener (length (promises s)) ty)]\<rparr>"
    by (auto simp: messageOfType_run)
  show "waiting p ty (next_timer s)
           (clock s + timer_delay ((case timeout of None \<Rightarrow> 5 | Some x \<Rightarrow> x) * 1000)) s1"
    by (simp add: waiting_def p s1 refs_ok_no_refers [OF r] at_most_def)
  show "(''message'', MessageOfTypeListener p ty) \<in> set (events s1)"
    by (simp add: p s1)
qed

lemma waiting_timer:
  assumes "waiting p ty t d s"
  shows "(t, \<lparr>due = d, period = None, callback = MessageTimeout p ty\<rparr>) \<in> set (timers s)"
proof -
  have "(t, \<lparr>due = d, period = None, callback = MessageTimeout p ty\<rparr>)
      \<in> set (filter (\<lambda>r. rejects p (callback (snd r))) (timers s))"
    using assms by (simp add: waiting_def)
  then show ?thesis by simp
qed

lemma waiting_map_of:
  assumes "wf s" "waiting p ty t d s"
  shows "map_of (timers s) t = Some \<lparr>due = d, period = None, callback = MessageTimeout p ty\<rparr>"
  using assms(1) waiting_timer [OF assms(2)] by (simp add: wf_def timers_ok_def)

lemma waiting_only:
  assumes "waiting p ty t d s" "(t', tm) \<in> set (timers s)" "rejects p (callback tm)"
  shows "t' = t"
proof -
  have "(t', tm) \<in> set (filter (\<lambda>r. rejects p (callback (snd r))) (timers s))"
    using assms(2,3) by simp
  moreover have "filter (\<lambda>r. rejects p (callback (snd r))) (timers s) =
      [(t, \<lparr>due = d, period = None, callback = MessageTimeout p ty\<rparr>)]"
    using assms(1) by (simp add: waiting_def)
  ultimately have "(t', tm) \<in> set [(t, \<lparr>due = d, period = None, callback = MessageTimeout p ty\<rparr>)]"
    by (simp only:)
  then show ?thesis by simp
qed

lemma poll_timer_other:
  assumes "wf s" "waiting p ty t d s" "queuePollTimer s = Some tq"
  shows "tq \<noteq> t"
proof
  assume "tq = t"
  have "polling_tasks s = [tq]" using assms(1,3) by (simp add: wf_def polling_ok_def)
  then have "tq \<in> set (polling_tasks s)" by simp
  then obtain x where x: "(tq, x) \<in> set (timers s)" "callback x = QueuePoll"
    by (auto simp: polling_tasks_def)
  have "distinct (map fst (timers s))" using assms(1) by (simp add: wf_def timers_ok_def)
  from eq_key_imp_eq_value [OF this x(1) [unfolded \<open>tq = t\<close>] waiting_timer [OF assms(2)]]
  show False using x(2) by simp
qed

lemma waiting_filter_other:
  assumes "waiting p ty t d s" "t' \<noteq> t"
  shows "waiting p ty t d (s\<lparr>timers := filter (\<lambda>r. fst r \<noteq> t') (timers s)\<rparr>)"
proof -
  have "filter (\<lambda>r. rejects p (callback (snd r))) (filter (\<lambda>r. fst r \<noteq> t') (timers s)) =
        filter (\<lambda>r. fst r \<noteq> t') (filter (\<lambda>r. rejects p (callback (snd r))) (timers s))"
    by (rule filter_swap)
  also have "\<dots> = [(t, \<lparr>due = d, period = None, callback = MessageTimeout p ty\<rparr>)]"
    using assms by (simp add: waiting_def)
  finally show ?thesis using assms(1) by (simp add: waiting_def)
qed

lemma waiting_onNewListener: "waiting p ty t d s \<Longrightarrow> waiting p ty t d (onNewListener ev s)"
  by (simp add: onNewListener_run waiting_def)

lemma waiting_onRemoveListener:
  assumes "wf s" "waiting p ty t d s"
  shows "waiting p ty t d (onRemoveListener ev s)"
proof (cases "queuePollTimer s")
  case None
  then show ?thesis using assms(2) by (simp add: onRemoveListener_run)
next
  case (Some tq)
  have "waiting p ty t d (s\<lparr>timers := filter (\<lambda>r. fst r \<noteq> tq) (timers s)\<rparr>)"
    by (rule waiting_filter_other [OF assms(2) poll_timer_other [OF assms Some]])
  then have "waiting p ty t d (s\<lparr>timers := filter (\<lambda>r. fst r \<noteq> tq) (timers s), queuePollTimer := None\<rparr>)"
    by (simp add: waiting_def)
  then show ?thesis using Some assms(2) by (simp add: onRemoveListener_run)
qed

lemma waiting_call_hook:
  "wf s \<Longrightarrow> waiting p ty t d s \<Longrightarrow> waiting p ty t d (call_hook x h ev s)"
  by (cases h) (simp_all add: waiting_onNewListener waiting_onRemoveListener)

lemma waiting_fold:
  assumes "\<And>x s. x \<in> set xs \<Longrightarrow> wf s \<Longrightarrow> waiting p ty t d s \<Longrightarrow> wf (f x s) \<and> waiting p ty t d (f x s)"
  shows "wf s \<Longrightarrow> waiting p ty t d s \<Longrightarrow> waiting p ty t d (fold f xs s)"
  using assms by (induction xs arbitrary: s) simp_all

lemma waiting_events:
  assumes "waiting p ty t d s"
    and "at_most (''message'', MessageOfTypeListener p ty) (filter (\<lambda>r. refers p (snd r)) es)"
  shows "waiting p ty t d (s\<lparr>events := es\<rparr>)"
  using assms by (simp add: waiting_def)

lemma waiting_at_most:
  "waiting p ty t d s \<Longrightarrow>
   at_most (''message'', MessageOfTypeListener p ty) (filter (\<lambda>r. refers p (snd r)) (events s))"
  by (simp add: waiting_def)

lemma waiting_on:
  assumes "wf s" "waiting p ty t d s" "\<not> refers p l"
  shows "waiting p ty t d (on ev l s)"
proof -
  define s' where "s' = fold (\<lambda>h. call_hook ''newListener'' h ev) (listeners_of ''newListener'' s) s"
  have "waiting p ty t d s'" unfolding s'_def using assms(1,2)
    by (rule waiting_fold [rotated]) (simp add: wf_call_hook waiting_call_hook)
  then have "waiting p ty t d (s'\<lparr>events := events s' @ [(ev, l)]\<rparr>)"
    using assms(3) by (simp add: waiting_def)
  then show ?thesis by (simp add: on_def Let_def s'_def)
qed

lemma waiting_removeListener:
  assumes "wf s" "waiting p ty t d s"
  shows "waiting p ty t d (removeListener ev l s)"
proof -
  define s' where "s' = s\<lparr>events := remove_last (ev, l) (events s)\<rparr>"
  have "wf s'" unfolding s'_def using assms(1) by (rule wf_events) (rule set_remove_last)
  moreover have "waiting p ty t d s'"
    unfolding s'_def using assms(2) waiting_at_most [OF assms(2)]
    by (intro waiting_events) (simp_all add: filter_remove_last at_most_remove_last)
  ultimately have "waiting p ty t d
      (fold (\<lambda>h. call_hook ''removeListener'' h ev) (listeners_of ''removeListener'' s') s')"
    by (rule waiting_fold [rotated]) (simp add: wf_call_hook waiting_call_hook)
  then show ?thesis using assms(2) by (simp add: removeListener_def Let_def s'_def)
qed

lemma waiting_removeAllListeners_of:
  assumes "wf s" "waiting p ty t d s"
  shows "waiting p ty t d (removeAllListeners_of ev s)"
proof -
  have "at_most (''message'', MessageOfTypeListener p ty)
      (filter (\<lambda>r. refers p (snd r)) (filter (\<lambda>r. fst r \<noteq> ev) (events s)))"
    unfolding filter_swap [of "\<lambda>r. refers p (snd r)"]
    by (rule at_most_filter [OF waiting_at_most [OF assms(2)]])
  then have "waiting p ty t d (s\<lparr>events := filter (\<lambda>r. fst r \<noteq> ev) (events s)\<rparr>)"
    by (rule waiting_events [OF assms(2)])
  moreover have "waiting p ty t d (fold (\<lambda>l. removeListener ev l) (rev (listeners_of ev s)) s)"
    using assms by (rule waiting_fold [rotated]) (simp add: wf_removeListener waiting_removeListener)
  ultimately show ?thesis by (simp add: removeAllListeners_of_def)
qed

lemma waiting_removeAllListeners:
  assumes "wf s" "waiting p ty t d s"
  shows "waiting p ty t d (removeAllListeners s)"
proof -
  define s' where "s' = fold removeAllListeners_of
      (filter (\<lambda>k. k \<noteq> ''removeListener'') (event_names s)) s"
  have e: "waiting p ty t d (x\<lparr>events := []\<rparr>)" if "waiting p ty t d x" for x
    using that by (rule waiting_events) (simp add: at_most_def)
  have "wf s'" unfolding s'_def using assms(1) by (rule wf_fold [rotated]) (rule wf_removeAllListeners_of)
  moreover have "waiting p ty t d s'" unfolding s'_def using assms
    by (rule waiting_fold [rotated]) (simp add: wf_removeAllListeners_of waiting_removeAllListeners_of)
  ultimately have "waiting p ty t d (removeAllListeners_of ''removeListener'' s')"
    by (rule waiting_removeAllListeners_of)
  then show ?thesis using e assms(2) by (simp add: removeAllListeners_def Let_def s'_def)
qed

lemma waiting_promise_other:
  "waiting p ty t d s \<Longrightarrow> q \<noteq> p \<Longrightarrow> waiting p ty t d (s\<lparr>promises := (promises s)[q := x]\<rparr>)"
  by (simp add: waiting_def)

lemma waiting_resolve: "waiting p ty t d s \<Longrightarrow> q \<noteq> p \<Longrightarrow> waiting p ty t d (resolve q m s)"
  by (simp add: resolve_def waiting_promise_other)

lemma waiting_reject: "waiting p ty t d s \<Longrightarrow> q \<noteq> p \<Longrightarrow> waiting p ty t d (reject q e s)"
  by (simp add: reject_def waiting_promise_other)

lemma waiting_call_listener:
  assumes "wf s" "waiting p ty t d s" "msg_type m \<noteq> ty"
    and "\<forall>ty'. l = MessageOfTypeListener p ty' \<longrightarrow> ty' = ty"
  shows "waiting p ty t d (call_listener l (EmMessage m) s)"
proof (cases l)
  case (MessageOfTypeListener q ty')
  show ?thesis
  proof (cases "msg_type m = ty'")
    case False
    then show ?thesis using MessageOfTypeListener assms(2) by simp
  next
    case True
    then have q: "q \<noteq> p" using assms(3,4) MessageOfTypeListener by auto
    have "waiting p ty t d (removeListener ''message'' (MessageOfTypeListener q ty') (resolve q m s))"
      using q assms(1,2) by (intro waiting_removeListener) (simp_all add: wf_resolve waiting_resolve)
    then show ?thesis using True MessageOfTypeListener by simp
  qed
qed (simp_all add: assms(2))

lemma waiting_snapshot:
  assumes "waiting p ty t d s"
  shows "\<forall>l \<in> set (listeners_of ev s). \<forall>ty'. l = MessageOfTypeListener p ty' \<longrightarrow> ty' = ty"
proof (intro ballI allI impI)
  fix l ty' assume l: "l \<in> set (listeners_of ev s)" "l = MessageOfTypeListener p ty'"
  then obtain e where "(e, l) \<in> set (events s)" by (auto simp: listeners_of_def)
  then have "(e, l) \<in> set (filter (\<lambda>r. refers p (snd r)) (events s))" using l(2) by simp
  from at_most_in [OF waiting_at_most [OF assms] this]
  show "ty' = ty" using l(2) by simp
qed

lemma waiting_emit_fold:
  assumes "msg_type m \<noteq> ty" "\<forall>l \<in> set ls. \<forall>ty'. l = MessageOfTypeListener p ty' \<longrightarrow> ty' = ty"
  shows "wf s \<Longrightarrow> waiting p ty t d s \<Longrightarrow>
         waiting p ty t d (fold (\<lambda>l. call_listener l (EmMessage m)) ls s)"
  using assms(2)
proof (induction ls arbitrary: s)
  case Nil
  then show ?case by simp
next
  case (Cons l ls)
  have "wf (call_listener l (EmMessage m) s)"
    by (rule wf_call_listener [OF Cons.prems(1)])
  moreover have "waiting p ty t d (call_listener l (EmMessage m) s)"
    using Cons.prems by (intro waiting_call_listener assms(1)) simp_all
  ultimately show ?case using Cons.IH Cons.prems(3) by simp
qed

lemma emit_other:
  assumes "\<forall>m. em \<noteq> EmMessage m"
  shows "emit em s = s\<lparr>emitted := emitted s @ [em]\<rparr>"
proof -
  have c: "call_listener l em s' = s'" for l s'
    using assms by (cases l; cases em) simp_all
  have "fold (\<lambda>l. call_listener l em) ls s' = s'" for ls s'
    by (induction ls) (simp_all add: c)
  then show ?thesis by (simp add: emit_def Let_def)
qed

lemma waiting_emit_message:
  assumes "wf s" "waiting p ty t d s" "msg_type m \<noteq> ty"
  shows "waiting p ty t d (emit (EmMessage m) s)"
proof -
  define s' where "s' = s\<lparr>emitted := emitted s @ [EmMessage m]\<rparr>"
  have c: "core s' = core s" by (simp add: s'_def core_def)
  have "wf s'" "waiting p ty t d s'"
    using assms(1,2) by (simp_all add: wf_core [OF c] waiting_core [OF c])
  then have "waiting p ty t d (fold (\<lambda>l. call_listener l (EmMessage m)) (listeners_of ''message'' s') s')"
    by (intro waiting_emit_fold [OF assms(3)] waiting_snapshot)
  then show ?thesis by (simp add: emit_def Let_def s'_def)
qed

lemma core_emit_other: "\<forall>m. em \<noteq> EmMessage m \<Longrightarrow> core (emit em s) = core s"
  by (simp add: emit_other core_def)

lemma core_onReceiveMessage: "core (onReceiveMessage m s) = core (emit (EmMessage m) s)"
  by (simp add: onReceiveMessage_def Let_def core_emit_other split: option.split)

lemma waiting_onReceiveMessage:
  assumes "wf s" "waiting p ty t d s" "msg_type m \<noteq> ty"
  shows "waiting p ty t d (onReceiveMessage m s)"
  using waiting_emit_message [OF assms] by (simp add: waiting_core [OF core_onReceiveMessage])

lemma waiting_run_callback:
  assumes "wf s" "waiting p ty t d s" "\<not> rejects p cb"
  shows "waiting p ty t d (run_callback env cb s)"
proof (cases cb)
  case (MessageTimeout q ty')
  then have q: "q \<noteq> p" using assms(3) by simp
  have "waiting p ty t d (removeListener ''message'' (MessageOfTypeListener q ty')
          (reject q (TimedOutWaitingForMessageType ty') s))"
    using q assms(1,2) by (intro waiting_removeListener) (simp_all add: wf_reject waiting_reject)
  then show ?thesis using MessageTimeout by simp
next
  case QueuePoll
  then show ?thesis using assms(2) by (simp add: waiting_core [OF core_queuePoll])
qed

lemma waiting_interval_again:
  assumes "waiting p ty t d s" "t' \<noteq> t"
  shows "waiting p ty t d
           (s\<lparr>timers := map (\<lambda>r. if fst r = t' then (t', (snd r)\<lparr>due := due (snd r) + ms\<rparr>) else r) (timers s)\<rparr>)"
proof -
  let ?f = "\<lambda>r. if fst r = t' then (t', (snd r)\<lparr>due := due (snd r) + ms\<rparr>) else r"
  have c: "rejects p (callback (snd (?f r))) = rejects p (callback (snd r))" for r :: "nat \<times> timer"
    by simp
  have "filter (\<lambda>r. rejects p (callback (snd r))) (map ?f (timers s)) =
        map ?f (filter (\<lambda>r. rejects p (callback (snd r))) (timers s))"
    unfolding filter_map comp_def c ..
  also have "\<dots> = [(t, \<lparr>due = d, period = None, callback = MessageTimeout p ty\<rparr>)]"
    using assms by (simp add: waiting_def)
  finally show ?thesis using assms(1) by (simp add: waiting_def)
qed

lemma waiting_fire_other:
  assumes "wf s" "waiting p ty t d s" "t' \<noteq> t"
  shows "waiting p ty t d (fire env t' s)"
proof (cases "map_of (timers s) t'")
  case None
  then show ?thesis using assms(2) by (simp add: fire_def)
next
  case (Some tm)
  have n: "\<not> rejects p (callback tm)"
    using waiting_only [OF assms(2) map_of_SomeD [OF Some]] assms(3) by blast
  show ?thesis
  proof (cases "due tm \<le> clock s")
    case False
    then show ?thesis using Some assms(2) by (simp add: fire_def)
  next
    case True
    show ?thesis
    proof (cases "period tm")
      case None
      have "waiting p ty t d (run_callback env (callback tm)
              (s\<lparr>timers := filter (\<lambda>r. fst r \<noteq> t') (timers s)\<rparr>))"
        using wf_timeout_gone [OF assms(1) Some None] waiting_filter_other [OF assms(2,3)] n
        by (rule waiting_run_callback)
      then show ?thesis using Some True None by (simp add: fire_def)
    next
      case (Some ms)
      have "waiting p ty t d (run_callback env (callback tm)
              (s\<lparr>timers := map (\<lambda>r. if fst r = t' then (t', (snd r)\<lparr>due := due (snd r) + ms\<rparr>) else r)
                               (timers s)\<rparr>))"
        using wf_interval_again [OF assms(1)] waiting_interval_again [OF assms(2,3)] n
        by (rule waiting_run_callback)
      then show ?thesis using \<open>map_of (timers s) t' = Some tm\<close> True Some by (simp add: fire_def)
    qed
  qed
qed

lemma waiting_messageOfType_other:
  assumes "waiting p ty t d s"
  shows "waiting p ty t d (snd (messageOfType ty' timeout s))"
proof -
  have "p < length (promises s)" using assms by (simp add: waiting_def)
  then show ?thesis using assms
    by (simp add: messageOfType_run waiting_def nth_append)
qed

lemma waiting_act:
  assumes "wf s" "waiting p ty t d s" "quiet ty t a"
  shows "waiting p ty t d (act env a s)"
proof (cases a)
  case (On ev n)
  then show ?thesis using assms by (simp add: waiting_on)
next
  case (Off ev l)
  then show ?thesis using assms by (simp add: waiting_removeListener)
next
  case (RemoveAllListeners e)
  then show ?thesis using assms
    by (cases e) (simp_all add: waiting_removeAllListeners waiting_removeAllListeners_of)
next
  case (Receive m)
  then show ?thesis using assms by (simp add: waiting_onReceiveMessage)
next
  case (Advance d')
  then show ?thesis using assms(2) by (simp add: advance_def waiting_def)
next
  case (Fire t')
  then show ?thesis using assms by (simp add: waiting_fire_other)
next
  case (MessageOfType ty' timeout)
  then show ?thesis using assms by (simp add: waiting_messageOfType_other)
next
  case (OpenConnection creds)
  then show ?thesis using assms(2) by (simp add: waiting_core [OF core_openConnection])
next
  case CloseConnection
  then show ?thesis using assms(2) by (simp add: waiting_core [OF core_closeConnection])
next
  case (RequestPlaybackQueue options)
  then show ?thesis using assms(2) by (simp add: waiting_core [OF core_requestPlaybackQueue])
next
  case (RequestArtwork w h)
  then show ?thesis using assms(2) by (simp add: waiting_core [OF core_requestArtwork])
next
  case (SendKeyCommand k)
  then show ?thesis using assms(2) by (simp add: waiting_core [OF core_sendKeyCommand])
qed

lemma waiting_run:
  assumes "\<forall>a \<in> set acts. quiet ty t a"
  shows "wf s \<Longrightarrow> waiting p ty t d s \<Longrightarrow> waiting p ty t d (run env acts s)"
  using assms unfolding run_def
proof (induction acts arbitrary: s)
  case Nil
  then show ?case by simp
next
  case (Cons a acts)
  have "wf (act env a s)" by (rule wf_act [OF Cons.prems(1)])
  moreover have "waiting p ty t d (act env a s)"
    using Cons.prems by (intro waiting_act) simp_all
  ultimately show ?case using Cons.IH Cons.prems(3) by simp
qed

lemma fire_timeout:
  assumes "wf s" "waiting p ty t d s"
  shows "fire env t s =
     (if d \<le> clock s
      then s\<lparr>timers := filter (\<lambda>r. fst r \<noteq> t) (timers s),
             promises := (promises s)[p := Rejected (TimedOutWaitingForMessageType ty)],
             events := remove_last (''message'', MessageOfTypeListener p ty) (events s)\<rparr>
      else s)"
proof -
  have m: "map_of (timers s) t = Some \<lparr>due = d, period = None, callback = MessageTimeout p ty\<rparr>"
    by (rule waiting_map_of [OF assms])
  have p: "p < length (promises s)" "promises s ! p = Pending"
    using assms(2) by (simp_all add: waiting_def)
  show ?thesis using m p
    by (simp add: fire_def reject_def removeListener_message)
qed

subsection \<open>The listener of a wait stays\<close>

lemma events_resolve [simp]: "events (resolve p m s) = events s"
  by (simp add: resolve_def)

lemma events_reject [simp]: "events (reject p e s) = events s"
  by (simp add: reject_def)

lemma registered_call_listener:
  assumes "msg_type m \<noteq> ty" "(''message'', MessageOfTypeListener p ty) \<in> set (events s)"
  shows "(''message'', MessageOfTypeListener p ty) \<in> set (events (call_listener l (EmMessage m) s))"
proof (cases l)
  case (MessageOfTypeListener q ty')
  then show ?thesis using assms
    by (auto simp: events_removeListener in_remove_last)
qed (simp_all add: assms(2))

lemma registered_emit_fold:
  assumes "msg_type m \<noteq> ty"
  shows "(''message'', MessageOfTypeListener p ty) \<in> set (events s) \<Longrightarrow>
         (''message'', MessageOfTypeListener p ty) \<in>
           set (events (fold (\<lambda>l. call_listener l (EmMessage m)) ls s))"
  by (induction ls arbitrary: s) (simp_all add: registered_call_listener [OF assms])

lemma events_core: "core s' = core s \<Longrightarrow> events s' = events s"
  by (simp add: core_def)

lemma registered_onReceiveMessage:
  assumes "msg_type m \<noteq> ty" "(''message'', MessageOfTypeListener p ty) \<in> set (events s)"
  shows "(''message'', MessageOfTypeListener p ty) \<in> set (events (onReceiveMessage m s))"
proof -
  have "(''message'', MessageOfTypeListener p ty) \<in> set (events (emit (EmMessage m) s))"
    using assms(2) by (simp add: emit_def Let_def registered_emit_fold [OF assms(1)])
  then show ?thesis by (simp add: events_core [OF core_onReceiveMessage])
qed

lemma registered_run_callback:
  assumes "\<not> rejects p cb" "(''message'', MessageOfTypeListener p ty) \<in> set (events s)"
  shows "(''message'', MessageOfTypeListener p ty) \<in> set (events (run_callback env cb s))"
proof (cases cb)
  case (MessageTimeout q ty')
  then show ?thesis using assms by (auto simp: events_removeListener in_remove_last)
next
  case QueuePoll
  then show ?thesis using assms(2) by (simp add: events_core [OF core_queuePoll])
qed

lemma registered_fire_other:
  assumes "waiting p ty t d s" "t' \<noteq> t" "(''message'', MessageOfTypeListener p ty) \<in> set (events s)"
  shows "(''message'', MessageOfTypeListener p ty) \<in> set (events (fire env t' s))"
proof (cases "map_of (timers s) t'")
  case None
  then show ?thesis using assms(3) by (simp add: fire_def)
next
  case (Some tm)
  have n: "\<not> rejects p (callback tm)"
    using waiting_only [OF assms(1) map_of_SomeD [OF Some]] assms(2) by blast
  have "(''message'', MessageOfTypeListener p ty) \<in>
      set (events (run_callback env (callback tm) (s\<lparr>timers := ts\<rparr>)))" for ts
    by (rule registered_run_callback [OF n]) (simp add: assms(3))
  then show ?thesis using Some assms(3) by (simp add: fire_def split: option.split)
qed

lemma registered_fold_removeListener:
  assumes "\<forall>l \<in> set ls. (ev, l) \<noteq> x"
  shows "x \<in> set (events s) \<Longrightarrow> x \<in> set (events (fold (\<lambda>l. removeListener ev l) ls s))"
  using assms
proof (induction ls arbitrary: s)
  case Nil
  then show ?case by simp
next
  case (Cons l ls)
  from Cons.prems have "x \<noteq> (ev, l)" by auto
  then have "x \<in> set (events (removeListener ev l s))"
    using Cons.prems(1) by (simp add: events_removeListener in_remove_last)
  then show ?case using Cons.IH Cons.prems(2) by simp
qed

lemma registered_removeAllListeners_of:
  assumes "fst x \<noteq> ev" "x \<in> set (events s)"
  shows "x \<in> set (events (removeAllListeners_of ev s))"
proof -
  have "x \<in> set (events (fold (\<lambda>l. removeListener ev l) (rev (listeners_of ev s)) s))"
    using assms by (intro registered_fold_removeListener) auto
  then show ?thesis using assms by (simp add: removeAllListeners_of_def)
qed

lemma registered_act:
  assumes "waiting p ty t d s" "quiet ty t a" "keeps_wait p a"
    and "(''message'', MessageOfTypeListener p ty) \<in> set (events s)"
  shows "(''message'', MessageOfTypeListener p ty) \<in> set (events (act env a s))"
proof (cases a)
  case (On ev n)
  then show ?thesis using assms(4) by (simp add: events_on)
next
  case (Off ev l)
  then have "(''message'', MessageOfTypeListener p ty) \<noteq> (ev, l)" using assms(3) by auto
  then show ?thesis using Off assms(4) by (simp add: events_removeListener in_remove_last)
next
  case (RemoveAllListeners e)
  then show ?thesis using assms(3,4)
    by (cases e) (simp_all add: registered_removeAllListeners_of)
next
  case (Receive m)
  then show ?thesis using assms(2,4) by (simp add: registered_onReceiveMessage)
next
  case (Advance d')
  then show ?thesis using assms(4) by (simp add: advance_def)
next
  case (Fire t')
  then show ?thesis using assms(1,2,4) by (simp add: registered_fire_other)
next
  case (MessageOfType ty' timeout)
  then show ?thesis using assms(4) by (simp add: messageOfType_run)
next
  case (OpenConnection creds)
  then show ?thesis using assms(4) by (simp add: events_core [OF core_openConnection])
next
  case CloseConnection
  then show ?thesis using assms(4) by (simp add: events_core [OF core_closeConnection])
next
  case (RequestPlaybackQueue options)
  then show ?thesis using assms(4) by (simp add: events_core [OF core_requestPlaybackQueue])
next
  case (RequestArtwork w h)
  then show ?thesis using assms(4) by (simp add: events_core [OF core_requestArtwork])
next
  case (SendKeyCommand k)
  then show ?thesis using assms(4) by (simp add: events_core [OF core_sendKeyCommand])
qed

lemma registered_run:
  assumes "\<forall>a \<in> set acts. quiet ty t a" "\<forall>a \<in> set acts. keeps_wait p a"
  shows "wf s \<Longrightarrow> waiting p ty t d s \<Longrightarrow>
         (''message'', MessageOfTypeListener p ty) \<in> set (events s) \<Longrightarrow>
         (''message'', MessageOfTypeListener p ty) \<in> set (events (run env acts s))"
  using assms unfolding run_def
proof (induction acts arbitrary: s)
  case Nil
  then show ?case by simp
next
  case (Cons a acts)
  have "wf (act env a s)" by (rule wf_act [OF Cons.prems(1)])
  moreover have "waiting p ty t d (act env a s)"
    using Cons.prems by (intro waiting_act) simp_all
  moreover have "(''message'', MessageOfTypeListener p ty) \<in> set (events (act env a s))"
    using Cons.prems by (intro registered_act [of p ty t d]) simp_all
  ultimately show ?case using Cons.IH Cons.prems(4,5) by simp
qed

lemmas eval_emitter = run_def fresh_def new_AppleTV_eq hooks_def on_def removeListener_def
  listeners_of_def listenerCount_def onNewListener_def onRemoveListener_def setInterval_def
  clearInterval_def remove_last_def watched_def polling_tasks_def timer_delay_def Let_def

lemmas eval_receive = eval_emitter onReceiveMessage_def emit_def advance_def
  messageOfType_def setTimeout_def device_info_message_def set_state_message_def

subsection \<open>Opening a connection\<close>

text \<open>
  C4. When \<open>openConnection\<close> is called without credentials and resolves, it has made two
  calls on the connection, \<open>open\<close> and one \<open>send\<close>: the only message sent is the
  introduction, whose type is \<open>DeviceInfoMessage\<close>; no connection-state and no
  client-updates-config message is sent.
\<close>

theorem open_without_credentials_sends_only_the_introduction:
  assumes "openConnection env None s = (Inr u, s')"
  shows "trace s' = trace s @ [ConnOpen, ConnSend (introduction (pairingId s)) True 0
            (map_option (\<lambda>c. (c, heap s c)) (credentials s))]
       \<and> sent (trace s') = sent (trace s) @ [introduction (pairingId s)]
       \<and> messageType (introduction (pairingId s)) = ''DeviceInfoMessage''"
  using assms
  by (auto simp: openConnection_None sent_append introduction_def split: option.splits sum.splits)

theorem open_without_credentials_witness:
  "openConnection env_ok None fresh = (Inr (), snd (openConnection env_ok None fresh))
   \<and> map messageType (sent (trace (snd (openConnection env_ok None fresh)))) = [''DeviceInfoMessage'']"
proof -
  have h: "openConnection env_ok None fresh = (Inr (), snd (openConnection env_ok None fresh))"
    by (simp add: openConnection_None env_ok_def)
  from open_without_credentials_sends_only_the_introduction [OF h] h show ?thesis
    by (simp add: fresh_def new_AppleTV_fields introduction_def)
qed

text \<open>
  C3. When \<open>openConnection\<close> is called with credentials and resolves, the calls it has made
  are, in this order: \<open>open\<close>, the send of the introduction, the verification, the send of
  the connection-state message and the send of the client-updates-config message. The
  keys the verification resolved to are in the caller's credentials object when the
  connection-state message is sent (the send is given the object with the keys), and they
  are the only change to the caller's objects.
\<close>

theorem open_with_credentials_sequence:
  assumes "openConnection env (Some c) s = (Inr u, s')"
  shows "\<exists>ks. verify_outcome env (Suc (Suc (length (trace s)))) = Inr ks
       \<and> trace s' = trace s @
           [ConnOpen,
            ConnSend (introduction (c_pairingId (heap s c))) True 0
              (map_option (\<lambda>c. (c, heap s c)) (credentials s)),
            VerifierVerify,
            ConnSend connectionState False 0 (Some (c, with_keys ks (heap s c))),
            ConnSend clientUpdatesConfig False 0 (Some (c, with_keys ks (heap s c)))]
       \<and> sent (trace s') = sent (trace s) @
           [introduction (c_pairingId (heap s c)), connectionState, clientUpdatesConfig]
       \<and> heap s' = (heap s)(c := with_keys ks (heap s c))
       \<and> credentials s' = Some c"
  using assms
  by (auto simp: openConnection_Some Let_def sent_append split: option.splits sum.splits)

theorem open_with_credentials_witness:
  "openConnection env_ok (Some 0) fresh = (Inr (), snd (openConnection env_ok (Some 0) fresh))
   \<and> map messageType (sent (trace (snd (openConnection env_ok (Some 0) fresh)))) =
       [''DeviceInfoMessage'', ''SetConnectionStateMessage'', ''ClientUpdatesConfigMessage'']
   \<and> readKey (heap (snd (openConnection env_ok (Some 0) fresh)) 0) = Some [0x0A, 0x0B]
   \<and> writeKey (heap (snd (openConnection env_ok (Some 0) fresh)) 0) = Some [0x0C]"
proof -
  have h: "openConnection env_ok (Some 0) fresh = (Inr (), snd (openConnection env_ok (Some 0) fresh))"
    by (simp add: openConnection_Some env_ok_def Let_def)
  have v: "verify_outcome env_ok n = Inr \<lparr>k_readKey = [0x0A, 0x0B], k_writeKey = [0x0C]\<rparr>" for n
    by (simp add: env_ok_def)
  from open_with_credentials_sequence [OF h] v show ?thesis using h
    by (auto simp: fresh_def new_AppleTV_fields introduction_def connectionState_def
        clientUpdatesConfig_def)
qed




text \<open>
  C10. In every call of \<open>openConnection\<close>, the introduction is handed to the connection with
  the credentials stored before the call (none on a first open), under the pairing
  identifier of the call. The stored credentials become the argument of the call once the
  introduction has resolved, and not before: if opening or the introduction fails they
  are what they were. So a call without credentials whose introduction resolves leaves no
  stored credentials, whatever an earlier call had stored.
\<close>

theorem credentials_assigned_after_introduction:
  assumes "openConnection env creds s = (r, s')"
  shows "(open_outcome env (length (trace s)) = None \<longrightarrow>
            trace s' ! Suc (length (trace s)) =
              ConnSend (introduction (case creds of Some c \<Rightarrow> c_pairingId (heap s c)
                                                   | None \<Rightarrow> pairingId s))
                True 0 (map_option (\<lambda>c. (c, heap s c)) (credentials s)))
       \<and> credentials s' =
           (if open_outcome env (length (trace s)) = None
               \<and> failure env (Suc (length (trace s))) (trace s' ! Suc (length (trace s))) = None
            then creds else credentials s)"
proof (cases creds)
  case None
  then show ?thesis using assms
    by (auto simp: openConnection_None nth_append split: option.splits sum.splits)
next
  case (Some c)
  then show ?thesis using assms
    by (auto simp: openConnection_Some Let_def nth_append split: option.splits sum.splits)
qed

theorem credentials_assigned_witness:
  "credentials (snd (openConnection env_ok (Some 0) fresh)) = Some 0
   \<and> trace (snd (openConnection env_ok None (snd (openConnection env_ok (Some 0) fresh)))) ! 6 =
       ConnSend (introduction ''paired'') True 0
         (Some (0, \<lparr>c_pairingId = ''paired'', readKey = Some [0x0A, 0x0B], writeKey = Some [0x0C]\<rparr>))
   \<and> credentials (snd (openConnection env_ok None (snd (openConnection env_ok (Some 0) fresh)))) = None"
proof -
  define s1 where "s1 = snd (openConnection env_ok (Some 0) fresh)"
  have o: "open_outcome env_ok n = None" "failure env_ok n (ConnSend m w p c) = None" for n m w p c
    by (simp_all add: env_ok_def)
  have s1: "length (trace s1) = 5" "credentials s1 = Some 0" "pairingId s1 = ''paired''"
    "heap s1 0 = \<lparr>c_pairingId = ''paired'', readKey = Some [0x0A, 0x0B], writeKey = Some [0x0C]\<rparr>"
    by (simp_all add: s1_def openConnection_Some Let_def env_ok_def fresh_def new_AppleTV_fields
        with_keys_def caller_heap_def)
  have "openConnection env_ok None s1 = (fst (openConnection env_ok None s1), snd (openConnection env_ok None s1))"
    by simp
  from credentials_assigned_after_introduction [OF this] o s1 show ?thesis
    by (simp add: s1_def [symmetric])
qed

subsection \<open>Requests, keys, inbound messages and the poll\<close>

text \<open>
  C5. \<open>requestArtwork(w, h)\<close> makes one call on the connection: a waiting send of a
  playback-queue request with \<open>artworkWidth = w\<close>, \<open>artworkHeight = h\<close> (400 for an omitted
  one), \<open>length = 1\<close> and \<open>location = 0\<close>. If the send resolves, the call resolves to the
  artwork data of the first content item of the response when there is one, and rejects
  with "No artwork available" otherwise; the connection is left as it was (the only
  change of the state is the request identifier drawn and the call recorded). A send that
  rejects rejects the call with the error of the send.
\<close>

theorem requestArtwork_request_and_outcome:
  "requestArtwork env w h s =
     (let request = playbackQueueRequest (uuid env (uuids s)) 0 1
                      (case w of None \<Rightarrow> 400 | Some x \<Rightarrow> x) (case h of None \<Rightarrow> 400 | Some y \<Rightarrow> y)
      in (case send_outcome env (length (trace s)) request of
            Inl f \<Rightarrow> Inl (External f)
          | Inr response \<Rightarrow>
              (case artwork_of response of Some data \<Rightarrow> Inr data | None \<Rightarrow> Inl NoArtworkAvailable),
          s\<lparr>uuids := Suc (uuids s),
            trace := trace s @ [ConnSend request True 0 (map_option (\<lambda>c. (c, heap s c)) (credentials s))]\<rparr>))
   \<and> (artwork_of response = Some data \<longleftrightarrow>
        (\<exists>m p q item items. response = Some m \<and> payload m = Some p \<and> playbackQueue p = Some q \<and>
           contentItems q = Some (item # items) \<and> artworkData item = Some data))"
  by (rule conjI [OF requestArtwork_run artwork_of_Some])

text \<open>
  C6, as the code has it. For every key, \<open>sendKeyCommand\<close> hands the connection a
  non-waiting press carrying the pair of the key in the static mapping; if that send
  resolves, and only then and after it, it hands the connection a non-waiting release
  carrying the same pair. If the press rejects, no release is sent and the call rejects
  with the error of the press. The pairs of the keys the specification names are the
  ones it gives.
\<close>

theorem sendKeyCommand_press_then_release:
  "sendKeyCommand env k s =
     (let press = hidEvent env (static_mapping k) True;
          release = hidEvent env (static_mapping k) False;
          c = map_option (\<lambda>c. (c, heap s c)) (credentials s)
      in case send_outcome env (length (trace s)) press of
           Inl f \<Rightarrow> (Inl (External f), s\<lparr>trace := trace s @ [ConnSend press False 0 c]\<rparr>)
         | Inr r \<Rightarrow>
             (case send_outcome env (Suc (length (trace s))) release of
                Inl f \<Rightarrow> Inl (External f)
              | Inr r' \<Rightarrow> Inr (),
              s\<lparr>trace := trace s @ [ConnSend press False 0 c, ConnSend release False 0 c]\<rparr>))
   \<and> map static_mapping [Up, Down, Left, Right, Menu, Play, Pause, Select] =
       [(1, 0x8C), (1, 0x8D), (1, 0x8B), (1, 0x8A), (1, 0x86), (12, 0xB0), (12, 0xB1), (1, 0x89)]"
proof
  show "sendKeyCommand env k s =
     (let press = hidEvent env (static_mapping k) True;
          release = hidEvent env (static_mapping k) False;
          c = map_option (\<lambda>c. (c, heap s c)) (credentials s)
      in case send_outcome env (length (trace s)) press of
           Inl f \<Rightarrow> (Inl (External f), s\<lparr>trace := trace s @ [ConnSend press False 0 c]\<rparr>)
         | Inr r \<Rightarrow>
             (case send_outcome env (Suc (length (trace s))) release of
                Inl f \<Rightarrow> Inl (External f)
              | Inr r' \<Rightarrow> Inr (),
              s\<lparr>trace := trace s @ [ConnSend press False 0 c, ConnSend release False 0 c]\<rparr>))"
    by (cases k)
      (simp_all only: sendKeyCommand.simps sendKeyPressAndRelease_run static_mapping_def Key.case)
  show "map static_mapping [Up, Down, Left, Right, Menu, Play, Pause, Select] =
       [(1, 0x8C), (1, 0x8D), (1, 0x8B), (1, 0x8A), (1, 0x86), (12, 0xB0), (12, 0xB1), (1, 0x89)]"
    by (simp add: static_mapping_def)
qed

text \<open>
  C6, as stated, fails: when the press is rejected by the connection, \<open>sendKeyCommand(Up)\<close>
  has sent one message, not two, and rejects.
\<close>

theorem sendKeyCommand_two_sends_counterexample:
  "fst (sendKeyCommand env_send_fails Up fresh) = Inl (External ''write failed'')
   \<and> sent (trace (snd (sendKeyCommand env_send_fails Up fresh))) = [hidEvent env_send_fails (1, 0x8C) True]"
  by (simp add: sendKeyPressAndRelease_run env_send_fails_def env_ok_def Let_def fresh_def
      new_AppleTV_fields)

text \<open>
  C7. \<open>onReceiveMessage\<close> emits every message as \<open>message\<close>. For a \<open>SetStateMessage\<close> it
  emits in addition: with a null payload, one \<open>nowPlaying\<close> with null and nothing else;
  with a payload, \<open>nowPlaying\<close>, \<open>supportedCommands\<close> and \<open>playbackQueue\<close>, each if and only
  if that part is present in the payload, in this order. For any other type it emits
  nothing else.
\<close>

theorem onReceiveMessage_emits:
  "emitted (onReceiveMessage m s) =
     emitted s @ EmMessage m #
       (if msg_type m = SetStateMessage
        then (case payload m of
                None \<Rightarrow> [EmNowPlaying None]
              | Some p \<Rightarrow>
                  (case nowPlayingInfo p of None \<Rightarrow> [] | Some i \<Rightarrow> [EmNowPlaying (Some (NowPlayingInfo p))]) @
                  (case supportedCommands p of None \<Rightarrow> [] | Some sc \<Rightarrow> [EmSupportedCommands (projected sc)]) @
                  (case playbackQueue p of None \<Rightarrow> [] | Some q \<Rightarrow> [EmPlaybackQueue q]))
        else [])"
  by (simp add: onReceiveMessage_def Let_def projected_def split: option.split)

text \<open>
  C9. A tick of the poll hands the connection one non-waiting playback-queue request
  (\<open>length = 100\<close>, \<open>location = 0\<close>, artwork \<open>-1\<close> by \<open>368\<close>) if the connection is open, and
  leaves the state as it is if it is not: nothing is sent and nothing is kept for later.
  The promise of the tick never rejects, whatever the connection answers. Over any run
  of ticks, the number of messages sent is the number of ticks at which the connection
  was open.
\<close>

theorem queuePoll_tick:
  "queuePoll env s =
     (Inr (),
      if isOpen s
      then s\<lparr>uuids := Suc (uuids s),
             trace := trace s @ [ConnSend (playbackQueueRequest (uuid env (uuids s)) 0 100 (- 1) 368) False 0
                                   (map_option (\<lambda>c. (c, heap s c)) (credentials s))]\<rparr>
      else s)
   \<and> run_callback env QueuePoll s = snd (queuePoll env s)
   \<and> length (sent (trace (ticks env opens s))) =
       length (sent (trace s)) + length (filter (\<lambda>b. b) opens)"
  by (simp add: queuePoll_run sent_ticks)

subsection \<open>The poll and the listeners; waiting for a message\<close>

text \<open>
  C1, as stated, fails: after \<open>removeAllListeners()\<close>, which removes the two hooks of
  \<open>setupListeners\<close> with every other listener, a listener added on \<open>nowPlaying\<close> starts no
  poll. One watched listener is registered, \<open>queuePollTimer\<close> is not set and the runtime
  holds no poll.
\<close>

theorem polling_without_hooks_counterexample:
  "watched (run env_ok [RemoveAllListeners None, On ''nowPlaying'' 1] fresh) = 1
   \<and> queuePollTimer (run env_ok [RemoveAllListeners None, On ''nowPlaying'' 1] fresh) = None
   \<and> polling_tasks (run env_ok [RemoveAllListeners None, On ''nowPlaying'' 1] fresh) = []"
  by (simp add: eval_emitter removeAllListeners_def removeAllListeners_of_def event_names_def)

text \<open>
  C1, as the code has it. In every session a run reaches from a newly constructed one
  without removing either of the two hooks of \<open>setupListeners\<close>, the poll exists
  (\<open>queuePollTimer\<close> is set, and the runtime holds that one interval and no other poll)
  exactly when the listeners of \<open>nowPlaying\<close> and of \<open>supportedCommands\<close> together are more
  than zero. For a listener of the caller on either of the two events: adding it when
  there is none starts one poll; adding it when there is one changes no timer; removing
  one while another remains changes no timer; removing the last one clears the interval
  and the field.
\<close>

theorem polling_task_iff_watched_listeners:
  assumes "s = run env acts (new_AppleTV env h)"
    and "\<forall>a \<in> set acts. keeps_hooks a"
    and "ev = ''nowPlaying'' \<or> ev = ''supportedCommands''"
  shows "(queuePollTimer s \<noteq> None) = (0 < watched s)
       \<and> polling_tasks s = (case queuePollTimer s of None \<Rightarrow> [] | Some t \<Rightarrow> [t])
       \<and> (watched s = 0 \<longrightarrow>
            polling_tasks s = [] \<and> polling_tasks (on ev (UserListener n) s) = [next_timer s])
       \<and> (0 < watched s \<longrightarrow>
            timers (on ev (UserListener n) s) = timers s \<and>
            queuePollTimer (on ev (UserListener n) s) = queuePollTimer s)
       \<and> (0 < watched (removeListener ev (UserListener n) s) \<longrightarrow>
            timers (removeListener ev (UserListener n) s) = timers s \<and>
            queuePollTimer (removeListener ev (UserListener n) s) = queuePollTimer s)
       \<and> ((ev, UserListener n) \<in> set (events s) \<and> watched s = 1 \<longrightarrow>
            watched (removeListener ev (UserListener n) s) = 0 \<and>
            queuePollTimer (removeListener ev (UserListener n) s) = None \<and>
            polling_tasks (removeListener ev (UserListener n) s) = [])"
proof -
  have w: "wf s" using assms(1) by (simp add: wf_run wf_new_AppleTV)
  have "tended s" unfolding assms(1) by (rule tended_run [OF tended_new_AppleTV assms(2)])
  then have h: "hooked s" and 1: "(queuePollTimer s \<noteq> None) = (0 < watched s)"
    by (simp_all add: tended_def follows_def)
  have e: "watched_event ev" using assms(3) by (simp add: watched_event_def)
  have 2: "polling_tasks s = (case queuePollTimer s of None \<Rightarrow> [] | Some t \<Rightarrow> [t])"
    using w by (simp add: wf_def polling_ok_def)
  have 3: "polling_tasks s = [] \<and> polling_tasks (on ev (UserListener n) s) = [next_timer s]"
    if "watched s = 0"
    using that 1 2 e by (simp add: on_hooked [OF h] onNewListener_run polling_tasks_def)
  have 4: "timers (on ev (UserListener n) s) = timers s \<and>
           queuePollTimer (on ev (UserListener n) s) = queuePollTimer s"
    if "0 < watched s"
    using that 1 by (auto simp: on_hooked [OF h] onNewListener_run)
  have r: "removeListener ev (UserListener n) s =
      (if (ev, UserListener n) \<in> set (events s)
       then onRemoveListener ev (s\<lparr>events := remove_last (ev, UserListener n) (events s)\<rparr>) else s)"
    by (rule removeListener_hooked [OF h]) simp
  have we: "watched (onRemoveListener ev s') = watched s'" for s'
    by (rule watched_events) simp
  have 5: "timers (removeListener ev (UserListener n) s) = timers s \<and>
           queuePollTimer (removeListener ev (UserListener n) s) = queuePollTimer s"
    if "0 < watched (removeListener ev (UserListener n) s)"
  proof (cases "(ev, UserListener n) \<in> set (events s)")
    case False
    then show ?thesis by (simp add: r)
  next
    case True
    then have "0 < watched (s\<lparr>events := remove_last (ev, UserListener n) (events s)\<rparr>)"
      using that by (simp add: r we)
    then show ?thesis using True
      by (simp add: r onRemoveListener_run split: option.split)
  qed
  have 6: "watched (removeListener ev (UserListener n) s) = 0 \<and>
           queuePollTimer (removeListener ev (UserListener n) s) = None \<and>
           polling_tasks (removeListener ev (UserListener n) s) = []"
    if "(ev, UserListener n) \<in> set (events s) \<and> watched s = 1"
  proof -
    from that have m: "(ev, UserListener n) \<in> set (events s)" and o: "watched s = 1" by simp_all
    define s' where "s' = s\<lparr>events := remove_last (ev, UserListener n) (events s)\<rparr>"
    have z: "watched s' = 0"
      unfolding s'_def using watched_remove_last [OF m] e o by simp
    obtain t where t: "queuePollTimer s = Some t" using 1 o by auto
    then have pt: "polling_tasks s = [t]" using 2 by simp
    have t': "queuePollTimer s' = Some t" "timers s' = timers s"
      using t by (simp_all add: s'_def)
    have "polling_tasks (s'\<lparr>timers := filter (\<lambda>r. fst r \<noteq> t) (timers s'), queuePollTimer := None\<rparr>) =
        filter (\<lambda>i. i \<noteq> t) (polling_tasks s)"
      using polling_tasks_filter [of t s] by (simp add: polling_tasks_def t')
    then have "queuePollTimer (onRemoveListener ev s') = None \<and> polling_tasks (onRemoveListener ev s') = []"
      using z t' e pt by (simp add: onRemoveListener_run)
    moreover have "watched (onRemoveListener ev s') = 0"
      using z by (simp add: we)
    moreover have "removeListener ev (UserListener n) s = onRemoveListener ev s'"
      using m by (simp add: r s'_def)
    ultimately show ?thesis by simp
  qed
  from 1 2 3 4 5 6 show ?thesis by blast
qed

theorem polling_task_witness:
  "polling_tasks fresh = []
   \<and> polling_tasks (run env_ok [On ''nowPlaying'' 1] fresh) = [0]
   \<and> timers (run env_ok [On ''nowPlaying'' 1, On ''supportedCommands'' 2] fresh) =
       timers (run env_ok [On ''nowPlaying'' 1] fresh)
   \<and> timers (run env_ok [On ''nowPlaying'' 1, On ''supportedCommands'' 2,
                          Off ''nowPlaying'' (UserListener 1)] fresh) =
       timers (run env_ok [On ''nowPlaying'' 1, On ''supportedCommands'' 2] fresh)
   \<and> queuePollTimer (run env_ok [On ''nowPlaying'' 1, Off ''nowPlaying'' (UserListener 1)] fresh) = None
   \<and> polling_tasks (run env_ok [On ''nowPlaying'' 1, Off ''nowPlaying'' (UserListener 1)] fresh) = []"
proof -
  have a: "fresh = run env_ok [] (new_AppleTV env_ok caller_heap)"
    by (simp add: run_def fresh_def)
  have b: "run env_ok [On ''nowPlaying'' 1] fresh =
           run env_ok [On ''nowPlaying'' 1] (new_AppleTV env_ok caller_heap)"
    by (simp add: fresh_def)
  have c: "run env_ok [On ''nowPlaying'' 1, On ''supportedCommands'' 2] fresh =
           run env_ok [On ''nowPlaying'' 1, On ''supportedCommands'' 2] (new_AppleTV env_ok caller_heap)"
    by (simp add: fresh_def)
  have ka: "\<forall>a \<in> set []. keeps_hooks a"
    and kb: "\<forall>a \<in> set [On ''nowPlaying'' 1]. keeps_hooks a"
    and kc: "\<forall>a \<in> set [On ''nowPlaying'' 1, On ''supportedCommands'' 2]. keeps_hooks a"
    by simp_all
  have wa: "watched fresh = 0" "next_timer fresh = 0"
    by (simp_all add: eval_emitter)
  have wb: "watched (run env_ok [On ''nowPlaying'' 1] fresh) = 1"
    "(''nowPlaying'', UserListener 1) \<in> set (events (run env_ok [On ''nowPlaying'' 1] fresh))"
    by (simp_all add: eval_emitter)
  have wc: "0 < watched (run env_ok [On ''nowPlaying'' 1, On ''supportedCommands'' 2,
                                     Off ''nowPlaying'' (UserListener 1)] fresh)"
    by (simp add: eval_emitter)
  have e: "run env_ok [On ''nowPlaying'' 1] fresh = on ''nowPlaying'' (UserListener 1) fresh"
    "run env_ok [On ''nowPlaying'' 1, On ''supportedCommands'' 2] fresh =
       on ''supportedCommands'' (UserListener 2) (run env_ok [On ''nowPlaying'' 1] fresh)"
    "run env_ok [On ''nowPlaying'' 1, On ''supportedCommands'' 2, Off ''nowPlaying'' (UserListener 1)] fresh =
       removeListener ''nowPlaying'' (UserListener 1) (run env_ok [On ''nowPlaying'' 1, On ''supportedCommands'' 2] fresh)"
    "run env_ok [On ''nowPlaying'' 1, Off ''nowPlaying'' (UserListener 1)] fresh =
       removeListener ''nowPlaying'' (UserListener 1) (run env_ok [On ''nowPlaying'' 1] fresh)"
    by (simp_all add: run_def)
  from polling_task_iff_watched_listeners [OF a ka, of "''nowPlaying''" 1] wa
  have 1: "polling_tasks fresh = []" "polling_tasks (run env_ok [On ''nowPlaying'' 1] fresh) = [0]"
    by (simp_all only: e) simp_all
  from polling_task_iff_watched_listeners [OF b kb, of "''supportedCommands''" 2] wb
  have 2: "timers (run env_ok [On ''nowPlaying'' 1, On ''supportedCommands'' 2] fresh) =
       timers (run env_ok [On ''nowPlaying'' 1] fresh)"
    by (simp only: e) simp
  from polling_task_iff_watched_listeners [OF c kc, of "''nowPlaying''" 1] wc
  have 3: "timers (run env_ok [On ''nowPlaying'' 1, On ''supportedCommands'' 2,
                               Off ''nowPlaying'' (UserListener 1)] fresh) =
       timers (run env_ok [On ''nowPlaying'' 1, On ''supportedCommands'' 2] fresh)"
    by (simp only: e) simp
  from polling_task_iff_watched_listeners [OF b kb, of "''nowPlaying''" 1] wb
  have 4: "queuePollTimer (run env_ok [On ''nowPlaying'' 1, Off ''nowPlaying'' (UserListener 1)] fresh) = None"
    "polling_tasks (run env_ok [On ''nowPlaying'' 1, Off ''nowPlaying'' (UserListener 1)] fresh) = []"
    by (simp_all only: e) simp_all
  from 1 2 3 4 show ?thesis by simp
qed

text \<open>
  C8, as stated, fails: a timeout of 2147484 seconds is more milliseconds than a timer of
  the runtime takes, so the timer is set to 1 millisecond, and the promise is rejected
  with the timeout error 1 millisecond after the call.
\<close>

theorem messageOfType_long_timeout_counterexample:
  "clock (run env_ok [MessageOfType DeviceInfoMessage (Some 2147484), Advance 1, Fire 0] fresh) = 1
   \<and> promises (run env_ok [MessageOfType DeviceInfoMessage (Some 2147484), Advance 1, Fire 0] fresh) =
       [Rejected (TimedOutWaitingForMessageType DeviceInfoMessage)]"
  by (simp add: run_def fresh_def new_AppleTV_eq messageOfType_run advance_def fire_def
      timer_delay_def reject_def removeListener_message)

text \<open>
  C8, as the code has it. Let \<open>messageOfType(ty, timeout)\<close> be called in a session a run has
  reached, whatever messages that run has delivered: the promise of the call is pending
  and its listener is registered. As long as no message of type \<open>ty\<close> arrives and its timer
  has not run, the promise stays pending, the listener stays registered unless the caller
  removes it, and the timer stays due \<open>timeout\<close> seconds (5 by default) after the call when
  that is between 1 and \<open>2^31 - 1\<close> milliseconds, and 1 millisecond after the call
  otherwise. Run before that moment the timer does nothing; run from that moment on it
  rejects the promise with the timeout error and removes the listener of the call and
  nothing else: the listener is registered no more, and every other promise, listener and
  timer is as it was.
\<close>

theorem messageOfType_times_out:
  assumes "s0 = run env history (new_AppleTV env h)"
    and "messageOfType ty timeout s0 = (p, s1)"
    and "\<forall>a \<in> set later. quiet ty (next_timer s0) a"
    and "s2 = run env later s1"
    and "ms = (case timeout of None \<Rightarrow> 5 | Some x \<Rightarrow> x) * 1000"
    and "d = clock s0 + (if 1 \<le> ms \<and> ms \<le> 2147483647 then nat ms else 1)"
  shows "promises s1 ! p = Pending
       \<and> (''message'', MessageOfTypeListener p ty) \<in> set (events s1)
       \<and> promises s2 ! p = Pending
       \<and> ((\<forall>a \<in> set later. keeps_wait p a) \<longrightarrow>
            (''message'', MessageOfTypeListener p ty) \<in> set (events s2))
       \<and> map_of (timers s2) (next_timer s0) =
           Some \<lparr>due = d, period = None, callback = MessageTimeout p ty\<rparr>
       \<and> (clock s2 < d \<longrightarrow> fire env (next_timer s0) s2 = s2)
       \<and> (d \<le> clock s2 \<longrightarrow>
            promises (fire env (next_timer s0) s2) =
              (promises s2)[p := Rejected (TimedOutWaitingForMessageType ty)]
          \<and> events (fire env (next_timer s0) s2) =
              remove_last (''message'', MessageOfTypeListener p ty) (events s2)
          \<and> (''message'', MessageOfTypeListener p ty) \<notin> set (events (fire env (next_timer s0) s2))
          \<and> timers (fire env (next_timer s0) s2) =
              filter (\<lambda>r. fst r \<noteq> next_timer s0) (timers s2)
          \<and> queuePollTimer (fire env (next_timer s0) s2) = queuePollTimer s2
          \<and> untouched s2 (fire env (next_timer s0) s2))"
proof -
  have d: "d = clock s0 + timer_delay ((case timeout of None \<Rightarrow> 5 | Some x \<Rightarrow> x) * 1000)"
    by (simp add: assms(5,6) timer_delay_def)
  have w0: "wf s0" using assms(1) by (simp add: wf_run wf_new_AppleTV)
  have w1: "wf s1" using wf_messageOfType [OF w0, of ty timeout] assms(2) by simp
  have g1: "waiting p ty (next_timer s0) d s1"
    unfolding d by (rule waiting_messageOfType(1) [OF w0 assms(2)])
  have r1: "(''message'', MessageOfTypeListener p ty) \<in> set (events s1)"
    by (rule waiting_messageOfType(2) [OF w0 assms(2)])
  have w2: "wf s2" unfolding assms(4) by (rule wf_run [OF w1])
  have g2: "waiting p ty (next_timer s0) d s2"
    unfolding assms(4) by (rule waiting_run [OF assms(3) w1 g1])
  have r2: "(''message'', MessageOfTypeListener p ty) \<in> set (events s2)"
    if "\<forall>a \<in> set later. keeps_wait p a"
    unfolding assms(4) by (rule registered_run [OF assms(3) that w1 g1 r1])
  note f = fire_timeout [OF w2 g2, of env]
  have gone: "(''message'', MessageOfTypeListener p ty) \<notin>
      set (remove_last (''message'', MessageOfTypeListener p ty) (events s2))"
  proof -
    let ?x = "(''message'', MessageOfTypeListener p ty)"
    have "?x \<notin> set (remove_last ?x (filter (\<lambda>r. refers p (snd r)) (events s2)))"
      by (rule at_most_gone [OF waiting_at_most [OF g2]])
    then have "?x \<notin> set (filter (\<lambda>r. refers p (snd r)) (remove_last ?x (events s2)))"
      by (simp add: filter_remove_last)
    then show ?thesis by simp
  qed
  have "promises s1 ! p = Pending" using g1 by (simp add: waiting_def)
  moreover note r1
  moreover have "promises s2 ! p = Pending" using g2 by (simp add: waiting_def)
  moreover have "(\<forall>a \<in> set later. keeps_wait p a) \<longrightarrow>
      (''message'', MessageOfTypeListener p ty) \<in> set (events s2)"
    using r2 by blast
  moreover note waiting_map_of [OF w2 g2]
  moreover have "clock s2 < d \<longrightarrow> fire env (next_timer s0) s2 = s2"
    by (simp add: f)
  moreover have "d \<le> clock s2 \<longrightarrow>
            promises (fire env (next_timer s0) s2) =
              (promises s2)[p := Rejected (TimedOutWaitingForMessageType ty)]
          \<and> events (fire env (next_timer s0) s2) =
              remove_last (''message'', MessageOfTypeListener p ty) (events s2)
          \<and> (''message'', MessageOfTypeListener p ty) \<notin> set (events (fire env (next_timer s0) s2))
          \<and> timers (fire env (next_timer s0) s2) =
              filter (\<lambda>r. fst r \<noteq> next_timer s0) (timers s2)
          \<and> queuePollTimer (fire env (next_timer s0) s2) = queuePollTimer s2
          \<and> untouched s2 (fire env (next_timer s0) s2)"
    using gone by (simp add: f untouched_def)
  ultimately show ?thesis by blast
qed

theorem messageOfType_witness:
  "promises (snd (messageOfType DeviceInfoMessage None (run env_ok [Receive device_info_message] fresh))) =
     [Pending]
   \<and> fire env_ok 0 (run env_ok [Receive set_state_message, Advance 4999]
        (snd (messageOfType DeviceInfoMessage None (run env_ok [Receive device_info_message] fresh)))) =
       run env_ok [Receive set_state_message, Advance 4999]
        (snd (messageOfType DeviceInfoMessage None (run env_ok [Receive device_info_message] fresh)))
   \<and> promises (fire env_ok 0 (run env_ok [Receive set_state_message, Advance 5000]
        (snd (messageOfType DeviceInfoMessage None (run env_ok [Receive device_info_message] fresh))))) =
       [Rejected (TimedOutWaitingForMessageType DeviceInfoMessage)]
   \<and> events (run env_ok [Receive set_state_message, Advance 5000]
        (snd (messageOfType DeviceInfoMessage None (run env_ok [Receive device_info_message] fresh)))) =
       hooks @ [(''message'', MessageOfTypeListener 0 DeviceInfoMessage)]
   \<and> events (fire env_ok 0 (run env_ok [Receive set_state_message, Advance 5000]
        (snd (messageOfType DeviceInfoMessage None (run env_ok [Receive device_info_message] fresh))))) =
       hooks"
proof -
  define s0 where "s0 = run env_ok [Receive device_info_message] fresh"
  define s1 where "s1 = snd (messageOfType DeviceInfoMessage None s0)"
  define s2 where "s2 = run env_ok [Receive set_state_message, Advance 5000] s1"
  define s2' where "s2' = run env_ok [Receive set_state_message, Advance 4999] s1"
  have a1: "s0 = run env_ok [Receive device_info_message] (new_AppleTV env_ok caller_heap)"
    by (simp add: s0_def fresh_def)
  have e0: "promises s0 = []" "next_timer s0 = 0" "clock s0 = 0" "events s0 = hooks"
    by (simp_all add: s0_def eval_receive)
  have a2: "messageOfType DeviceInfoMessage None s0 = (0, s1)"
    by (simp add: s1_def messageOfType_def Let_def e0)
  have a3: "\<forall>a \<in> set [Receive set_state_message, Advance n]. quiet DeviceInfoMessage (next_timer s0) a" for n
    by (simp add: set_state_message_def)
  have a5: "(5000 :: int) = (case None of None \<Rightarrow> 5 | Some x \<Rightarrow> x) * 1000"
    by simp
  have a6: "5000 = clock s0 + (if 1 \<le> (5000 :: int) \<and> (5000 :: int) \<le> 2147483647 then nat 5000 else 1)"
    by (simp add: e0)
  have e1: "promises s1 = [Pending]" "clock s1 = 0"
    "events s1 = hooks @ [(''message'', MessageOfTypeListener 0 DeviceInfoMessage)]"
    by (simp_all add: s1_def e0 messageOfType_run)
  have e2: "clock s2 = 5000" "promises s2 = [Pending]"
    "events s2 = hooks @ [(''message'', MessageOfTypeListener 0 DeviceInfoMessage)]"
    "clock s2' = 4999"
    by (simp_all add: s2_def s2'_def run_def onReceiveMessage_def emit_def advance_def Let_def e1
        listeners_of_def hooks_def set_state_message_def)
  from messageOfType_times_out [OF a1 a2 a3 s2_def a5 a6] e0 e1 e2
  have "promises (fire env_ok 0 s2) = [Rejected (TimedOutWaitingForMessageType DeviceInfoMessage)]"
    "events (fire env_ok 0 s2) = hooks"
    by (simp_all add: remove_last_def hooks_def)
  moreover from messageOfType_times_out [OF a1 a2 a3 s2'_def a5 a6] e0 e2
  have "fire env_ok 0 s2' = s2'"
    by simp
  ultimately show ?thesis using e1 e2 by (simp add: s2_def s2'_def s1_def s0_def)
qed

end
